theory Spec2Isabelle
  imports Main "HOL-Library.Finite_Map" "HOL-Library.Multiset"
begin

chapter \<open>hono-utils validator: the form decoder and the issue sanitizer\<close>

text \<open>
  A shallow embedding of \<^verbatim>\<open>src/validator/parser.ts\<close>: the function
  \<^verbatim>\<open>flattenToNestedObject\<close>, which turns a flat record of path keys into a nested
  value, and \<^verbatim>\<open>sanitizeIssues\<close>, which strips restricted fields from validation issues.

  Strings are byte strings (UTF-8): every character the source inspects (brackets, dot,
  digits, signs, letters of numeric literals) is ASCII, and the bytes of a multi-byte
  character are never ASCII.
\<close>

section \<open>Splitting a key into path segments\<close>

text \<open>
  \<^verbatim>\<open>key.replace(/\[(\d+)\]/g, ".$1").replace(/\[([^\]]+)\]/g, ".$1").split(".").filter((k) => k.length > 0)\<close>

  Both patterns have the shape \<^verbatim>\<open>\[(C+)\]\<close> for a character class \<open>C\<close> that does not
  contain the closing bracket, so a match at an opening bracket takes the longest run of
  \<open>C\<close> (which must not be empty) and needs a closing bracket right after it. A global
  replace scans from the left, resumes after each match and moves on by one character
  where there is none.
\<close>

definition isDigit :: "char \<Rightarrow> bool" where
  "isDigit c \<longleftrightarrow> c \<in> set ''0123456789''"

function replaceBracketed :: "(char \<Rightarrow> bool) \<Rightarrow> string \<Rightarrow> string" where
  "replaceBracketed cls [] = []"
| "replaceBracketed cls (c # cs) =
     (let grp = takeWhile cls cs; rest = dropWhile cls cs in
      if c = CHR ''['' \<and> grp \<noteq> [] \<and> rest \<noteq> [] \<and> hd rest = CHR '']''
      then CHR ''.'' # grp @ replaceBracketed cls (tl rest)
      else c # replaceBracketed cls cs)"
  by pat_completeness auto
termination
proof (relation "measure (\<lambda>(cls, s). length s)")
  show "wf (measure (\<lambda>(cls, s). length s))" by simp
next
  fix cls :: "char \<Rightarrow> bool" and c cs grp rest
  assume "grp = takeWhile cls cs" "rest = dropWhile cls cs"
    "c = CHR ''['' \<and> grp \<noteq> [] \<and> rest \<noteq> [] \<and> hd rest = CHR '']''"
  then show "((cls, tl rest), (cls, c # cs)) \<in> measure (\<lambda>(cls, s). length s)"
    using length_dropWhile_le [of cls cs] by simp
next
  fix cls :: "char \<Rightarrow> bool" and c :: char and cs :: string
  show "((cls, cs), (cls, c # cs)) \<in> measure (\<lambda>(cls, s). length s)" by simp
qed

declare replaceBracketed.simps [simp del]

text \<open>\<^verbatim>\<open>s.split(sep)\<close> for a one-character separator; the empty string splits into one empty piece.\<close>

fun splitOn :: "char \<Rightarrow> string \<Rightarrow> string list" where
  "splitOn sep [] = [[]]"
| "splitOn sep (c # cs) =
     (if c = sep then [] # splitOn sep cs
      else (case splitOn sep cs of t # ts \<Rightarrow> (c # t) # ts | [] \<Rightarrow> [[c]]))"

definition tokenize :: "string \<Rightarrow> string list" where
  "tokenize key =
     filter (\<lambda>k. length k > 0)
       (splitOn (CHR ''.'')
         (replaceBracketed (\<lambda>c. c \<noteq> CHR '']'') (replaceBracketed isDigit key)))"

section \<open>\<^verbatim>\<open>Number(k)\<close> and the strict index check\<close>

text \<open>
  \<^verbatim>\<open>Number(k)\<close> applied to a string follows the StringNumericLiteral grammar of ECMAScript:
  white space is trimmed at both ends, the empty string is \<open>0\<close>, an unsigned literal with
  prefix \<^verbatim>\<open>0x\<close>, \<^verbatim>\<open>0o\<close> or \<^verbatim>\<open>0b\<close> is read in that radix, and anything else is an
  optionally signed decimal literal (digits, optional fraction, optional exponent) or
  \<^verbatim>\<open>Infinity\<close>; every other string is \<open>NaN\<close>. The model keeps the mathematical value
  of the literal: sign, decimal mantissa and power of ten.
\<close>

definition spaceSeqs :: "string list" where
  "spaceSeqs =
     [[CHR 0x09], [CHR 0x0A], [CHR 0x0B], [CHR 0x0C], [CHR 0x0D], [CHR 0x20],
      [CHR 0xC2, CHR 0xA0], [CHR 0xE1, CHR 0x9A, CHR 0x80],
      [CHR 0xE2, CHR 0x80, CHR 0x80], [CHR 0xE2, CHR 0x80, CHR 0x81],
      [CHR 0xE2, CHR 0x80, CHR 0x82], [CHR 0xE2, CHR 0x80, CHR 0x83],
      [CHR 0xE2, CHR 0x80, CHR 0x84], [CHR 0xE2, CHR 0x80, CHR 0x85],
      [CHR 0xE2, CHR 0x80, CHR 0x86], [CHR 0xE2, CHR 0x80, CHR 0x87],
      [CHR 0xE2, CHR 0x80, CHR 0x88], [CHR 0xE2, CHR 0x80, CHR 0x89],
      [CHR 0xE2, CHR 0x80, CHR 0x8A], [CHR 0xE2, CHR 0x80, CHR 0xA8],
      [CHR 0xE2, CHR 0x80, CHR 0xA9], [CHR 0xE2, CHR 0x80, CHR 0xAF],
      [CHR 0xE2, CHR 0x81, CHR 0x9F], [CHR 0xE3, CHR 0x80, CHR 0x80],
      [CHR 0xEF, CHR 0xBB, CHR 0xBF]]"

function stripLeading :: "string list \<Rightarrow> string \<Rightarrow> string" where
  "stripLeading ws s =
     (case find (\<lambda>w. w \<noteq> [] \<and> take (length w) s = w) ws of
        None \<Rightarrow> s
      | Some w \<Rightarrow> stripLeading ws (drop (length w) s))"
  by pat_completeness auto
termination
proof (relation "measure (\<lambda>(ws, s). length s)")
  show "wf (measure (\<lambda>(ws, s). length s))" by simp
next
  fix ws :: "string list" and s w :: string
  assume "find (\<lambda>w. w \<noteq> [] \<and> take (length w) s = w) ws = Some w"
  then have "w \<noteq> []" and "take (length w) s = w"
    by (auto simp: find_Some_iff)
  then have "s \<noteq> []" by auto
  with \<open>w \<noteq> []\<close> show "((ws, drop (length w) s), (ws, s)) \<in> measure (\<lambda>(ws, s). length s)"
    by simp
qed

declare stripLeading.simps [simp del]

definition trim :: "string \<Rightarrow> string" where
  "trim s = rev (stripLeading (map rev spaceSeqs) (rev (stripLeading spaceSeqs s)))"

definition digitOf :: "char \<Rightarrow> nat option" where
  "digitOf c =
     (let n = (of_char c :: nat) in
      if 48 \<le> n \<and> n \<le> 57 then Some (n - 48)
      else if 97 \<le> n \<and> n \<le> 102 then Some (n - 87)
      else if 65 \<le> n \<and> n \<le> 70 then Some (n - 55)
      else None)"

definition parseRadix :: "nat \<Rightarrow> string \<Rightarrow> nat option" where
  "parseRadix b s =
     (if s \<noteq> [] \<and> list_all (\<lambda>c. case digitOf c of Some d \<Rightarrow> d < b | None \<Rightarrow> False) s
      then Some (foldl (\<lambda>acc c. acc * b + the (digitOf c)) 0 s)
      else None)"

datatype jsnumber = NaN | Infinity bool | Decimal bool nat int

definition parseExponent :: "string \<Rightarrow> int option" where
  "parseExponent s =
     (case s of
        [] \<Rightarrow> Some 0
      | e # t \<Rightarrow>
          if e = CHR ''e'' \<or> e = CHR ''E'' then
            (case t of
               [] \<Rightarrow> None
             | sg # u \<Rightarrow>
                 if sg = CHR ''-'' then map_option (\<lambda>n. - int n) (parseRadix 10 u)
                 else if sg = CHR ''+'' then map_option int (parseRadix 10 u)
                 else map_option int (parseRadix 10 t))
          else None)"

definition parseUnsignedDecimal :: "bool \<Rightarrow> string \<Rightarrow> jsnumber" where
  "parseUnsignedDecimal neg s =
     (if s = ''Infinity'' then Infinity neg
      else
        let ip = takeWhile isDigit s; r1 = dropWhile isDigit s;
            dot = (r1 \<noteq> [] \<and> hd r1 = CHR ''.'');
            fp = (if dot then takeWhile isDigit (tl r1) else []);
            r2 = (if dot then dropWhile isDigit (tl r1) else r1)
        in if ip = [] \<and> fp = [] then NaN
           else (case parseExponent r2 of
                   None \<Rightarrow> NaN
                 | Some x \<Rightarrow>
                     (case parseRadix 10 (ip @ fp) of
                        None \<Rightarrow> NaN
                      | Some m \<Rightarrow> Decimal neg m (x - int (length fp)))))"

definition Number :: "string \<Rightarrow> jsnumber" where
  "Number k =
     (case trim k of
        [] \<Rightarrow> Decimal False 0 0
      | c # t \<Rightarrow>
          if c = CHR ''-'' then parseUnsignedDecimal True t
          else if c = CHR ''+'' then parseUnsignedDecimal False t
          else if c = CHR ''0'' \<and> t \<noteq> [] \<and> hd t \<in> set ''xXoObB'' then
            (case parseRadix
                    (if hd t \<in> set ''xX'' then 16 else if hd t \<in> set ''oO'' then 8 else 2)
                    (tl t) of
               None \<Rightarrow> NaN
             | Some n \<Rightarrow> Decimal False n 0)
          else parseUnsignedDecimal False (c # t))"

text \<open>
  \<^verbatim>\<open>Number(k)\<close> is the double nearest to the value of the literal (IEEE 754 binary64,
  round to nearest, ties to even). Every finite double is a multiple of \<open>2\<^sup>-\<^sup>1\<^sup>0\<^sup>7\<^sup>4\<close>,
  and \<open>toDouble a b\<close> is the double of \<open>a / b\<close> (for \<open>b > 0\<close>) counted in that unit:
  a value of at most 53 bits in that unit is rounded to the unit, a longer one to its
  leading 53 bits, and a value of \<open>2\<^sup>1\<^sup>0\<^sup>2\<^sup>4 - 2\<^sup>9\<^sup>7\<^sup>0\<close> or more (half way from the largest
  double to \<open>2\<^sup>1\<^sup>0\<^sup>2\<^sup>4\<close>) is \<^verbatim>\<open>Infinity\<close>, here \<open>None\<close>. (ECMAScript allows an
  implementation to read only the first 20 significant digits of a decimal literal; the
  model takes the correctly rounded value, as current engines do.)
\<close>

definition roundHalfEven :: "nat \<Rightarrow> nat \<Rightarrow> nat" where
  "roundHalfEven a b =
     (let f = a div b; r = a mod b in
      if 2 * r < b then f
      else if b < 2 * r then f + 1
      else if even f then f else f + 1)"

fun bitLength :: "nat \<Rightarrow> nat" where
  "bitLength n = (if n = 0 then 0 else Suc (bitLength (n div 2)))"

declare bitLength.simps [simp del]

definition toDouble :: "nat \<Rightarrow> nat \<Rightarrow> nat option" where
  "toDouble a b =
     (if (2 ^ 1024 - 2 ^ 970) * b \<le> a then None
      else
        let s = bitLength (a * 2 ^ 1074 div b) - 53
        in Some (roundHalfEven (a * 2 ^ 1074) (b * 2 ^ s) * 2 ^ s))"

text \<open>
  \<^verbatim>\<open>Number.isInteger(kAsNumber) && kAsNumber >= 0\<close>, with the integer when it holds:
  the double is finite, a whole number, and not below zero (\<open>-0\<close> is not below zero,
  and it addresses the same property as \<open>0\<close>).
\<close>

definition toIndex :: "jsnumber \<Rightarrow> nat option" where
  "toIndex x =
     (case x of
        NaN \<Rightarrow> None
      | Infinity neg \<Rightarrow> None
      | Decimal neg m e \<Rightarrow>
          (case (if 0 \<le> e then toDouble (m * 10 ^ nat e) 1
                 else toDouble m (10 ^ nat (- e))) of
             None \<Rightarrow> None
           | Some u \<Rightarrow>
               if 2 ^ 1074 dvd u \<and> (if neg then u = 0 else True) then Some (u div 2 ^ 1074)
               else None))"

definition strictIndex :: "string \<Rightarrow> nat option" where
  "strictIndex k = toIndex (Number k)"

definition isStrictIndex :: "string \<Rightarrow> bool" where
  "isStrictIndex k \<longleftrightarrow> strictIndex k \<noteq> None"

text \<open>
  \<^verbatim>\<open>ToString(n)\<close> of a non-negative integer up to \<open>2\<^sup>5\<^sup>3\<close>: its decimal digits. Above
  \<open>2\<^sup>5\<^sup>3\<close> the digits of \<^verbatim>\<open>ToString\<close> are the shortest that read back as the same double,
  which this model does not compute: \<open>represented k\<close> says that the property key of
  \<^verbatim>\<open>current[kAsNumber]\<close> is within the model.
\<close>

definition digitChar :: "nat \<Rightarrow> char" where
  "digitChar d = ''0123456789'' ! (d mod 10)"

fun ToString :: "nat \<Rightarrow> string" where
  "ToString n =
     (if n < 10 then [digitChar n] else ToString (n div 10) @ [digitChar (n mod 10)])"

declare ToString.simps [simp del]

definition represented :: "string \<Rightarrow> bool" where
  "represented k \<longleftrightarrow> (case strictIndex k of Some n \<Rightarrow> n \<le> 2 ^ 53 | None \<Rightarrow> True)"

text \<open>The property key that \<^verbatim>\<open>current[kAsNumber]\<close> addresses.\<close>

definition kAsNumber :: "string \<Rightarrow> string" where
  "kAsNumber k = (case strictIndex k of Some n \<Rightarrow> ToString n | None \<Rightarrow> k)"

section \<open>The nested value\<close>

text \<open>
  The values of the flat record are scalars (the decoder is fed form fields, query
  parameters and headers). The containers of the tree are the ones the decoder creates
  with \<^verbatim>\<open>{}\<close> and \<^verbatim>\<open>[]\<close>, each referenced from one place only, so the in-place
  updates of the source are updates of a tree.

  An array is its list of elements, \<open>None\<close> for a hole, together with the properties
  whose name is not an array index (the source can set such a property on an array).
  An object is a finite map: the order of its properties is not observable here.
\<close>

datatype scalar = Undefined | Null | Boolean bool | Num int | NotANumber | Str string

datatype jsval =
    Prim scalar
  | Obj "(string, jsval) fmap"
  | Arr "jsval option list" "(string, jsval) fmap"

datatype kind = array | object

datatype error =
    KeyConflict string kind string kind string
  | TypeError
  | Unmodelled string

text \<open>
  \<open>KeyConflict k existingType nextKey expectedType key\<close> is the source's
  \<^verbatim>\<open>Error(`Key conflict: '${k}' is already defined as an ${existingType}, but next key '${nextKey}' expects an ${expectedType}. Full key: ${key}`)\<close>.
  \<open>TypeError\<close> is what the \<^verbatim>\<open>in\<close> operator throws on a primitive right operand.
  \<open>Unmodelled k\<close> is not an outcome of the source: it marks a segment on which the model
  is silent (see \<open>unmodelled\<close>).
\<close>

text \<open>An array index is the canonical decimal form of an integer below \<open>2\<^sup>3\<^sup>2 - 1\<close>.\<close>

definition arrayIndex :: "string \<Rightarrow> nat option" where
  "arrayIndex k =
     (case parseRadix 10 k of
        Some n \<Rightarrow> if ToString n = k \<and> n < 2 ^ 32 - 1 then Some n else None
      | None \<Rightarrow> None)"

text \<open>Own properties: \<^verbatim>\<open>k in current\<close> (for own properties), \<^verbatim>\<open>current[k]\<close> and \<^verbatim>\<open>current[k] = v\<close>.\<close>

fun getProp :: "jsval \<Rightarrow> string \<Rightarrow> jsval option" where
  "getProp (Prim s) k = None"
| "getProp (Obj m) k = fmlookup m k"
| "getProp (Arr xs m) k =
     (case arrayIndex k of
        Some n \<Rightarrow> if n < length xs then xs ! n else None
      | None \<Rightarrow> fmlookup m k)"

definition hasProp :: "jsval \<Rightarrow> string \<Rightarrow> bool" where
  "hasProp current k \<longleftrightarrow> getProp current k \<noteq> None"

definition get :: "jsval \<Rightarrow> string \<Rightarrow> jsval" where
  "get current k = (case getProp current k of None \<Rightarrow> Prim Undefined | Some v \<Rightarrow> v)"

text \<open>Writing past the end of an array extends it with holes.\<close>

definition setElem :: "jsval option list \<Rightarrow> nat \<Rightarrow> jsval \<Rightarrow> jsval option list" where
  "setElem xs n v =
     (if n < length xs then xs[n := Some v]
      else xs @ replicate (n - length xs) None @ [Some v])"

fun setProp :: "jsval \<Rightarrow> string \<Rightarrow> jsval \<Rightarrow> jsval" where
  "setProp (Prim s) k v = Prim s"
| "setProp (Obj m) k v = Obj (fmupd k v m)"
| "setProp (Arr xs m) k v =
     (case arrayIndex k of
        Some n \<Rightarrow> Arr (setElem xs n v) m
      | None \<Rightarrow> Arr xs (fmupd k v m))"

definition isArray :: "jsval \<Rightarrow> bool" where
  "isArray v = (case v of Arr xs m \<Rightarrow> True | _ \<Rightarrow> False)"

definition isPrimitive :: "jsval \<Rightarrow> bool" where
  "isPrimitive v = (case v of Prim s \<Rightarrow> True | _ \<Rightarrow> False)"

text \<open>\<^verbatim>\<open>!v\<close> is true of \<^verbatim>\<open>undefined\<close>, \<^verbatim>\<open>null\<close>, \<^verbatim>\<open>false\<close>, \<^verbatim>\<open>0\<close>, \<^verbatim>\<open>NaN\<close> and \<^verbatim>\<open>""\<close>.\<close>

definition truthyScalar :: "scalar \<Rightarrow> bool" where
  "truthyScalar s =
     (case s of
        Undefined \<Rightarrow> False
      | Null \<Rightarrow> False
      | Boolean b \<Rightarrow> b
      | Num n \<Rightarrow> n \<noteq> 0
      | NotANumber \<Rightarrow> False
      | Str t \<Rightarrow> t \<noteq> [])"

definition truthy :: "jsval \<Rightarrow> bool" where
  "truthy v = (case v of Prim s \<Rightarrow> truthyScalar s | _ \<Rightarrow> True)"

text \<open>
  The \<^verbatim>\<open>in\<close> operator also finds what an object inherits. \<^verbatim>\<open>{}\<close> inherits the properties
  of \<^verbatim>\<open>Object.prototype\<close>, \<^verbatim>\<open>[]\<close> those of \<^verbatim>\<open>Array.prototype\<close> as well, and it owns
  \<^verbatim>\<open>length\<close>. Their values are built-in functions, shared by the whole program; what the
  source does once it reaches one is outside this model, which answers \<open>Unmodelled\<close> for a
  segment of such a name. The lists are those of ECMAScript 2025.
\<close>

definition objectPrototype :: "string list" where
  "objectPrototype =
     [''constructor'', ''__defineGetter__'', ''__defineSetter__'', ''hasOwnProperty'',
      ''__lookupGetter__'', ''__lookupSetter__'', ''isPrototypeOf'',
      ''propertyIsEnumerable'', ''toString'', ''valueOf'', ''__proto__'',
      ''toLocaleString'']"

definition arrayPrototype :: "string list" where
  "arrayPrototype =
     [''length'', ''at'', ''concat'', ''copyWithin'', ''fill'', ''find'', ''findIndex'',
      ''findLast'', ''findLastIndex'', ''lastIndexOf'', ''pop'', ''push'', ''reverse'',
      ''shift'', ''unshift'', ''slice'', ''sort'', ''splice'', ''includes'', ''indexOf'',
      ''join'', ''keys'', ''entries'', ''values'', ''forEach'', ''filter'', ''flat'',
      ''flatMap'', ''map'', ''every'', ''some'', ''reduce'', ''reduceRight'',
      ''toReversed'', ''toSorted'', ''toSpliced'', ''with'']"

definition inherited :: "jsval \<Rightarrow> string \<Rightarrow> bool" where
  "inherited current k =
     (case current of
        Prim s \<Rightarrow> False
      | Obj m \<Rightarrow> k \<in> set objectPrototype
      | Arr xs m \<Rightarrow> k \<in> set arrayPrototype \<or> k \<in> set objectPrototype)"

text \<open>
  The segments on which the model is silent: an inherited name, and in an array a strict
  index above \<open>2\<^sup>5\<^sup>3\<close> (the key of \<^verbatim>\<open>current[kAsNumber]\<close> is then not computed).
\<close>

definition unmodelled :: "jsval \<Rightarrow> string \<Rightarrow> bool" where
  "unmodelled current k \<longleftrightarrow> inherited current k \<or> (isArray current \<and> \<not> represented k)"

section \<open>The decoder\<close>

definition emptyOf :: "kind \<Rightarrow> jsval" where
  "emptyOf t = (case t of array \<Rightarrow> Arr [] fmempty | object \<Rightarrow> Obj fmempty)"

text \<open>\<^verbatim>\<open>Array.isArray(current[k]) ? "array" : "object"\<close>\<close>

definition existingType :: "jsval \<Rightarrow> string \<Rightarrow> kind" where
  "existingType current k = (if isArray (get current k) then array else object)"

text \<open>\<^verbatim>\<open>nextIsStrictIndex ? "array" : "object"\<close>\<close>

definition expectedType :: "string \<Rightarrow> kind" where
  "expectedType nextKey = (if isStrictIndex nextKey then array else object)"

text \<open>
  An intermediate segment first makes sure that \<^verbatim>\<open>current[k]\<close> exists:
  \<^verbatim>\<open>if (!(k in current)) { current[k] = expectedType === "array" ? [] : {}; }\<close>
\<close>

definition create :: "jsval \<Rightarrow> string \<Rightarrow> string \<Rightarrow> jsval" where
  "create current k nextKey =
     (if \<not> hasProp current k then setProp current k (emptyOf (expectedType nextKey))
      else current)"

text \<open>
  Both branches of the loop body then address \<^verbatim>\<open>current[kAsNumber]\<close> if
  \<^verbatim>\<open>isStrictIndex && Array.isArray(current)\<close>, and \<^verbatim>\<open>current[k]\<close> otherwise.
\<close>

definition slotOf :: "jsval \<Rightarrow> string \<Rightarrow> string" where
  "slotOf current k = (if isStrictIndex k \<and> isArray current then kAsNumber k else k)"

text \<open>
  In the first case an intermediate segment initialises a falsy element:
  \<^verbatim>\<open>if (!current[kAsNumber]) { current[kAsNumber] = nextIsStrictIndex ? [] : {}; }\<close>
\<close>

definition fill :: "jsval \<Rightarrow> string \<Rightarrow> string \<Rightarrow> jsval" where
  "fill current k nextKey =
     (if isStrictIndex k \<and> isArray current \<and> \<not> truthy (get current (kAsNumber k))
      then setProp current (kAsNumber k)
             (if isStrictIndex nextKey then Arr [] fmempty else Obj fmempty)
      else current)"

text \<open>
  The inner loop of the source, for one entry: \<open>assignPath key value current keys\<close> runs the
  iterations that are left when \<^verbatim>\<open>current\<close> is the container reached and \<open>keys\<close> are the
  segments from \<^verbatim>\<open>keys[i]\<close> on, and returns \<^verbatim>\<open>current\<close> as the loop leaves it. The first
  equation is a key without segments (the loop body never runs), the second the last
  segment (\<^verbatim>\<open>isLast\<close>), the third an intermediate one: the conflict check, then the
  creation, then the descent into the child, whose updates are updates of \<^verbatim>\<open>current\<close>.
\<close>

fun assignPath :: "string \<Rightarrow> scalar \<Rightarrow> jsval \<Rightarrow> string list \<Rightarrow> error + jsval" where
  "assignPath key val current [] = Inr current"
| "assignPath key val current [k] =
     (if isPrimitive current then Inl TypeError
      else if unmodelled current k then Inl (Unmodelled k)
      else Inr (setProp current (slotOf current k) (Prim val)))"
| "assignPath key val current (k # nextKey # rest) =
     (if isPrimitive current then Inl TypeError
      else if unmodelled current k then Inl (Unmodelled k)
      else if hasProp current k \<and> existingType current k \<noteq> expectedType nextKey
        then Inl (KeyConflict k (existingType current k) nextKey (expectedType nextKey) key)
      else
        let filled = fill (create current k nextKey) k nextKey;
            slot = slotOf filled k
        in case assignPath key val (get filled slot) (nextKey # rest) of
             Inl e \<Rightarrow> Inl e
           | Inr child \<Rightarrow> Inr (setProp filled slot child))"

text \<open>The outer loop over \<^verbatim>\<open>Object.entries(flatObject)\<close>, in the order of the entries.\<close>

fun assignAll :: "(string \<times> scalar) list \<Rightarrow> jsval \<Rightarrow> error + jsval" where
  "assignAll [] data = Inr data"
| "assignAll ((key, val) # entries) data =
     (case assignPath key val data (tokenize key) of
        Inl e \<Rightarrow> Inl e
      | Inr data' \<Rightarrow> assignAll entries data')"

text \<open>
  \<^verbatim>\<open>obj.map(compactArrays).filter((val) => val !== undefined)\<close> for an array: \<^verbatim>\<open>map\<close> and
  \<^verbatim>\<open>filter\<close> skip the holes and build a new array, without the other properties. For an
  object, every own property is replaced by its compacted value.
\<close>

definition assigned :: "'a option list \<Rightarrow> 'a list" where
  "assigned xs = concat (map (\<lambda>x. case x of None \<Rightarrow> [] | Some v \<Rightarrow> [v]) xs)"

primrec compactArrays :: "jsval \<Rightarrow> jsval" where
  "compactArrays (Prim s) = Prim s"
| "compactArrays (Obj m) = Obj (fmmap compactArrays m)"
| "compactArrays (Arr xs m) =
     Arr (map Some (filter (\<lambda>val. val \<noteq> Prim Undefined)
                     (assigned (map (map_option compactArrays) xs)))) fmempty"

text \<open>
  What \<open>compactArrays\<close> is for: a value in which every array, at any depth, has neither
  holes nor \<^verbatim>\<open>undefined\<close> elements nor properties other than its elements.
\<close>

primrec dense :: "jsval \<Rightarrow> bool" where
  "dense (Prim s) = True"
| "dense (Obj m) = fmpred (\<lambda>k b. b) (fmmap dense m)"
| "dense (Arr xs m) =
     (m = fmempty \<and>
      list_all (\<lambda>x. case x of None \<Rightarrow> False | Some b \<Rightarrow> b)
        (map (map_option (\<lambda>v. v \<noteq> Prim Undefined \<and> dense v)) xs))"

definition flattenToNestedObject :: "(string \<times> scalar) list \<Rightarrow> error + jsval" where
  "flattenToNestedObject flatObject =
     (case assignAll flatObject (Obj fmempty) of
        Inl e \<Rightarrow> Inl e
      | Inr data \<Rightarrow> Inr (compactArrays data))"

text \<open>Notation for expected results: an object from its properties, a dense array from its elements.\<close>

definition obj :: "(string \<times> jsval) list \<Rightarrow> jsval" where
  "obj ps = Obj (fmap_of_list (rev ps))"

definition arr :: "jsval list \<Rightarrow> jsval" where
  "arr vs = Arr (map Some vs) fmempty"

text \<open>Reading a path back: the value that a later traversal of the segments reaches.\<close>

fun follow :: "jsval \<Rightarrow> string list \<Rightarrow> jsval" where
  "follow current [] = current"
| "follow current (k # ks) = follow (get current (slotOf current k)) ks"

section \<open>The issue sanitizer\<close>

text \<open>
  \<^verbatim>\<open>sanitizeIssues\<close> is about object identity: one vendor path clones, the other mutates
  in place. The model therefore has a store. A value is a scalar or the address of an
  object; an object is a plain object (its prototype and its own properties, in insertion
  order) or an array (its elements). The store is the list of all objects, an address is a
  position in it, and a new object is appended.

  Scope: properties are ordinary data properties (enumerable, writable, configurable);
  a prototype is an opaque identity that contributes no \<^verbatim>\<open>data\<close>, \<^verbatim>\<open>path\<close> or
  \<^verbatim>\<open>input\<close> property; arrays are dense.
\<close>

type_synonym addr = nat

datatype val = Scalar scalar | Ref addr

datatype proto = ObjectPrototype | ClassPrototype nat

datatype cell = PlainObject proto "(string \<times> val) list" | ArrayObject "val list"

type_synonym heap = "cell list"

definition lookup :: "heap \<Rightarrow> addr \<Rightarrow> cell option" where
  "lookup h a = (if a < length h then Some (h ! a) else None)"

text \<open>\<^verbatim>\<open>keyof ValidationTargets\<close>\<close>

datatype target = json | form | query | param | header | cookie

definition RESTRICTED_DATA_FIELDS :: "(target \<times> string list) list" where
  "RESTRICTED_DATA_FIELDS = [(header, [''cookie''])]"

text \<open>\<^verbatim>\<open>delete o[field]\<close> and \<^verbatim>\<open>o[k] = v\<close> on the own properties of a plain object.\<close>

definition deleteProp :: "string \<Rightarrow> (string \<times> val) list \<Rightarrow> (string \<times> val) list" where
  "deleteProp field props = filter (\<lambda>p. fst p \<noteq> field) props"

fun assignProp :: "string \<Rightarrow> val \<Rightarrow> (string \<times> val) list \<Rightarrow> (string \<times> val) list" where
  "assignProp k v [] = [(k, v)]"
| "assignProp k v (p # ps) = (if fst p = k then (k, v) # ps else p # assignProp k v ps)"

text \<open>
  \<^verbatim>\<open>issues.map(callback)\<close>: the callback runs on every element in order, each call on the
  store the previous one left, and the results make a new array.
\<close>

fun mapIssues ::
  "(heap \<Rightarrow> val \<Rightarrow> error + heap \<times> val) \<Rightarrow> heap \<Rightarrow> val list \<Rightarrow> error + heap \<times> val list" where
  "mapIssues f h [] = Inr (h, [])"
| "mapIssues f h (issue # issues) =
     (case f h issue of
        Inl e \<Rightarrow> Inl e
      | Inr (h1, y) \<Rightarrow>
          (case mapIssues f h1 issues of
             Inl e \<Rightarrow> Inl e
           | Inr (h2, ys) \<Rightarrow> Inr (h2, y # ys)))"

definition arrayMap ::
  "(heap \<Rightarrow> val \<Rightarrow> error + heap \<times> val) \<Rightarrow> heap \<Rightarrow> addr \<Rightarrow> error + heap \<times> addr" where
  "arrayMap f h issues =
     (case lookup h issues of
        Some (ArrayObject xs) \<Rightarrow>
          (case mapIssues f h xs of
             Inl e \<Rightarrow> Inl e
           | Inr (h', ys) \<Rightarrow> Inr (h' @ [ArrayObject ys], length h'))
      | _ \<Rightarrow> Inl TypeError)"

text \<open>
  The callback of \<^verbatim>\<open>sanitizeArktypeIssues\<close>. The guard holds of an object that has a
  \<^verbatim>\<open>data\<close> property whose value is an object and not an array. \<^verbatim>\<open>{ ...issue.data }\<close> is a
  new object with the properties of the payload, \<^verbatim>\<open>Object.create(Object.getPrototypeOf(issue))\<close>
  a new object with the prototype of the issue, and \<^verbatim>\<open>Object.assign(sanitizedIssue, issue, { data: dataCopy })\<close>
  gives it the properties of the issue, then \<^verbatim>\<open>data\<close>.
\<close>

definition sanitizeArktypeIssue :: "string list \<Rightarrow> heap \<Rightarrow> val \<Rightarrow> error + heap \<times> val" where
  "sanitizeArktypeIssue restrictedFields h issue =
     (case issue of
        Ref a \<Rightarrow>
          (case lookup h a of
             Some (PlainObject p props) \<Rightarrow>
               (case map_of props ''data'' of
                  Some (Ref d) \<Rightarrow>
                    (case lookup h d of
                       Some (PlainObject pd dprops) \<Rightarrow>
                         let dataCopy = length h;
                             h1 = h @ [PlainObject ObjectPrototype
                                         (fold deleteProp restrictedFields dprops)];
                             sanitizedIssue = length h1;
                             h2 = h1 @ [PlainObject p
                                          (assignProp ''data'' (Ref dataCopy) props)]
                         in Inr (h2, Ref sanitizedIssue)
                     | _ \<Rightarrow> Inr (h, issue))
                | _ \<Rightarrow> Inr (h, issue))
           | _ \<Rightarrow> Inr (h, issue))
      | _ \<Rightarrow> Inr (h, issue))"

definition sanitizeArktypeIssues :: "heap \<Rightarrow> addr \<Rightarrow> string list \<Rightarrow> error + heap \<times> addr" where
  "sanitizeArktypeIssues h issues restrictedFields =
     arrayMap (sanitizeArktypeIssue restrictedFields) h issues"

text \<open>
  The body of \<^verbatim>\<open>for (const path of issue.path)\<close> in \<^verbatim>\<open>sanitizeValibotIssues\<close>.
  \<^verbatim>\<open>typeof null\<close> is \<^verbatim>\<open>"object"\<close>, so a \<^verbatim>\<open>null\<close> entry reaches \<^verbatim>\<open>"input" in path\<close>,
  which throws.
\<close>

definition sanitizePathEntry :: "string list \<Rightarrow> heap \<Rightarrow> val \<Rightarrow> error + heap" where
  "sanitizePathEntry restrictedFields h path =
     (case path of
        Scalar s \<Rightarrow> if s = Null then Inl TypeError else Inr h
      | Ref e \<Rightarrow>
          (case lookup h e of
             Some (PlainObject p props) \<Rightarrow>
               (case map_of props ''input'' of
                  Some (Ref i) \<Rightarrow>
                    (case lookup h i of
                       Some (PlainObject pi iprops) \<Rightarrow>
                         Inr (h[i := PlainObject pi (fold deleteProp restrictedFields iprops)])
                     | _ \<Rightarrow> Inr h)
                | _ \<Rightarrow> Inr h)
           | _ \<Rightarrow> Inr h))"

fun forEachPath :: "string list \<Rightarrow> heap \<Rightarrow> val list \<Rightarrow> error + heap" where
  "forEachPath restrictedFields h [] = Inr h"
| "forEachPath restrictedFields h (path # paths) =
     (case sanitizePathEntry restrictedFields h path of
        Inl e \<Rightarrow> Inl e
      | Inr h1 \<Rightarrow> forEachPath restrictedFields h1 paths)"

definition sanitizeValibotIssue :: "string list \<Rightarrow> heap \<Rightarrow> val \<Rightarrow> error + heap \<times> val" where
  "sanitizeValibotIssue restrictedFields h issue =
     (case issue of
        Ref a \<Rightarrow>
          (case lookup h a of
             Some (PlainObject p props) \<Rightarrow>
               (case map_of props ''path'' of
                  Some (Ref pa) \<Rightarrow>
                    (case lookup h pa of
                       Some (ArrayObject paths) \<Rightarrow>
                         (case forEachPath restrictedFields h paths of
                            Inl e \<Rightarrow> Inl e
                          | Inr h' \<Rightarrow> Inr (h', issue))
                     | _ \<Rightarrow> Inr (h, issue))
                | _ \<Rightarrow> Inr (h, issue))
           | _ \<Rightarrow> Inr (h, issue))
      | _ \<Rightarrow> Inr (h, issue))"

definition sanitizeValibotIssues :: "heap \<Rightarrow> addr \<Rightarrow> string list \<Rightarrow> error + heap \<times> addr" where
  "sanitizeValibotIssues h issues restrictedFields =
     arrayMap (sanitizeValibotIssue restrictedFields) h issues"

text \<open>
  \<open>sanitizeIssues h issues vendor target\<close> returns the store after the call and the
  address of the returned array.
\<close>

definition sanitizeIssues :: "heap \<Rightarrow> addr \<Rightarrow> string \<Rightarrow> target \<Rightarrow> error + heap \<times> addr" where
  "sanitizeIssues h issues vendor target =
     (case map_of RESTRICTED_DATA_FIELDS target of
        None \<Rightarrow> Inr (h, issues)
      | Some restrictedFields \<Rightarrow>
          if vendor = ''arktype'' then sanitizeArktypeIssues h issues restrictedFields
          else if vendor = ''valibot'' then sanitizeValibotIssues h issues restrictedFields
          else Inr (h, issues))"


section \<open>Predicates for stating the properties\<close>

text \<open>The value of a string of decimal digits.\<close>

definition decimalValue :: "string \<Rightarrow> nat" where
  "decimalValue s = foldl (\<lambda>acc c. acc * 10 + (of_char c - 48)) 0 s"

text \<open>
  A plain segment is a name, or the decimal numeral of a strict index (of at most
  \<open>2\<^sup>5\<^sup>3\<close>), that is not the name of a built-in property: the segment is then itself the
  key of the property it addresses, in an object and in an array, and the model is not
  silent on it.
\<close>

definition plainSegment :: "string \<Rightarrow> bool" where
  "plainSegment k \<longleftrightarrow>
     kAsNumber k = k \<and> represented k \<and> k \<notin> set objectPrototype \<and> k \<notin> set arrayPrototype"

text \<open>Two paths diverge if they part at some segment: neither is a prefix of the other.\<close>

fun diverge :: "string list \<Rightarrow> string list \<Rightarrow> bool" where
  "diverge (a # r1) (b # r2) = (if a = b then diverge r1 r2 else True)"
| "diverge r1 r2 = False"

text \<open>One pass of the outer loop of the decoder, forgetting which error has ended it.\<close>

definition assignEntry :: "string \<times> scalar \<Rightarrow> jsval option \<Rightarrow> jsval option" where
  "assignEntry entry data =
     (case data of
        None \<Rightarrow> None
      | Some d \<Rightarrow>
          (case assignPath (fst entry) (snd entry) d (tokenize (fst entry)) of
             Inl e \<Rightarrow> None
           | Inr d' \<Rightarrow> Some d'))"

text \<open>
  What the type \<^verbatim>\<open>readonly StandardSchemaV1.Issue[]\<close> of the argument contributes: the
  argument is an array, and an entry of a \<^verbatim>\<open>path\<close> is a property key or a path segment
  object, never \<^verbatim>\<open>null\<close>.
\<close>

definition noNullPath :: "heap \<Rightarrow> val \<Rightarrow> bool" where
  "noNullPath h issue =
     (case issue of
        Ref a \<Rightarrow>
          (case lookup h a of
             Some (PlainObject p props) \<Rightarrow>
               (case map_of props ''path'' of
                  Some (Ref pa) \<Rightarrow>
                    (case lookup h pa of
                       Some (ArrayObject paths) \<Rightarrow> Scalar Null \<notin> set paths
                     | _ \<Rightarrow> True)
                | _ \<Rightarrow> True)
           | _ \<Rightarrow> True)
      | _ \<Rightarrow> True)"

definition wellTyped :: "heap \<Rightarrow> addr \<Rightarrow> bool" where
  "wellTyped h issues =
     (case lookup h issues of
        Some (ArrayObject xs) \<Rightarrow> list_all (noNullPath h) xs
      | _ \<Rightarrow> False)"

text \<open>
  An output issue is derived from an input issue if it is a different object with the
  same prototype and the same properties, but for a new value of \<^verbatim>\<open>data\<close>.
\<close>

definition derived :: "heap \<Rightarrow> val \<Rightarrow> val \<Rightarrow> bool" where
  "derived h x y \<longleftrightarrow>
     (\<exists>a b p props c. x = Ref a \<and> y = Ref b \<and> a \<noteq> b
        \<and> lookup h a = Some (PlainObject p props)
        \<and> lookup h b = Some (PlainObject p (assignProp ''data'' (Ref c) props)))"

text \<open>
  A store is a reduction of another if it has the same objects at the same addresses,
  except that some plain objects have lost the given fields.
\<close>

definition reduced :: "string list \<Rightarrow> heap \<Rightarrow> heap \<Rightarrow> bool" where
  "reduced fields h h' \<longleftrightarrow>
     length h' = length h
     \<and> (\<forall>a < length h.
          h' ! a = h ! a
          \<or> (\<exists>p props. h ! a = PlainObject p props
                \<and> h' ! a = PlainObject p (fold deleteProp fields props)))"

section \<open>Facts about the numeric model\<close>

lemma bitLength_0 [simp]: "bitLength 0 = 0"
  by (simp add: bitLength.simps)

lemma bitLength_double: "0 < n \<Longrightarrow> bitLength (2 * n) = Suc (bitLength n)"
  by (subst bitLength.simps) simp

lemma bitLength_shift: "0 < n \<Longrightarrow> bitLength (n * 2 ^ j) = bitLength n + j"
proof (induction j)
  case 0
  then show ?case by simp
next
  case (Suc j)
  have "bitLength (n * 2 ^ Suc j) = bitLength (2 * (n * 2 ^ j))"
    by (simp add: mult.commute mult.left_commute)
  also have "\<dots> = Suc (bitLength (n * 2 ^ j))"
    using Suc.prems by (intro bitLength_double) simp
  finally show ?case using Suc by simp
qed

lemma bitLength_le: "n < 2 ^ j \<Longrightarrow> bitLength n \<le> j"
proof (induction j arbitrary: n)
  case 0
  then show ?case by simp
next
  case (Suc j)
  show ?case
  proof (cases "n = 0")
    case True
    then show ?thesis by simp
  next
    case False
    from Suc.prems have "n div 2 < 2 ^ j" by simp
    then have "bitLength (n div 2) \<le> j" by (rule Suc.IH)
    with False show ?thesis by (subst bitLength.simps) simp
  qed
qed

lemma roundHalfEven_exact: "0 < b \<Longrightarrow> b dvd a \<Longrightarrow> roundHalfEven a b = a div b"
  by (simp add: roundHalfEven_def Let_def)

lemma threshold_gt: "n \<le> 2 ^ 1023 \<Longrightarrow> \<not> (2 ^ 1024 - 2 ^ 970) * 1 \<le> (n::nat)"
  by simp

text \<open>An integer whose bits fit the significand is its own double.\<close>

lemma toDouble_exact:
  assumes "0 < n" and "\<not> (2 ^ 1024 - 2 ^ 970) * 1 \<le> n" and "2 ^ (bitLength n - 53) dvd n"
  shows "toDouble n 1 = Some (n * 2 ^ 1074)"
proof -
  define s where "s = bitLength (n * 2 ^ 1074 div 1) - 53"
  have s: "s = bitLength n + 1021"
    using assms(1) unfolding s_def by (simp only: div_by_1 bitLength_shift)
  have "(2::nat) ^ s = 2 ^ (bitLength n - 53) * 2 ^ 1074 \<or>
        (\<exists>d. (2::nat) ^ 1074 = 2 ^ s * 2 ^ d)"
  proof (cases "53 \<le> bitLength n")
    case True
    then have "s = (bitLength n - 53) + 1074" using s by simp
    then show ?thesis by (simp only: power_add) simp
  next
    case False
    then have "1074 = s + (53 - bitLength n)" using s by simp
    then have "(2::nat) ^ 1074 = 2 ^ s * 2 ^ (53 - bitLength n)"
      by (simp only: power_add [symmetric])
    then show ?thesis by blast
  qed
  then have dvd: "2 ^ s dvd n * 2 ^ 1074"
  proof
    assume "(2::nat) ^ s = 2 ^ (bitLength n - 53) * 2 ^ 1074"
    then show ?thesis using assms(3) by (simp only: mult_dvd_mono dvd_refl)
  next
    assume "\<exists>d. (2::nat) ^ 1074 = 2 ^ s * 2 ^ d"
    then obtain d where "(2::nat) ^ 1074 = 2 ^ s * 2 ^ d" ..
    then have "(2::nat) ^ s dvd 2 ^ 1074" by (simp only: dvd_triv_left)
    then show ?thesis by (rule dvd_mult)
  qed
  have "roundHalfEven (n * 2 ^ 1074) (1 * 2 ^ s) * 2 ^ s = n * 2 ^ 1074"
    using dvd by (simp only: mult_1 roundHalfEven_exact zero_less_power zero_less_numeral
        dvd_div_mult_self)
  then show ?thesis
    using assms(2) unfolding toDouble_def Let_def s_def [symmetric] by (simp only: if_False)
qed

lemma bitLength_fits: "n \<le> 2 ^ 53 \<Longrightarrow> 2 ^ (bitLength n - 53) dvd n"
proof (cases "n = 2 ^ 53")
  case True
  have "bitLength (1 * 2 ^ 53) = bitLength 1 + 53" by (rule bitLength_shift) simp
  moreover have "bitLength 1 = 1" by (simp add: bitLength.simps)
  ultimately have "bitLength n - 53 = 1" using True by simp
  with True show ?thesis by simp
next
  case False
  assume "n \<le> 2 ^ 53"
  with False have "n < 2 ^ 53" by simp
  then have "bitLength n \<le> 53" by (rule bitLength_le)
  then show ?thesis by simp
qed

text \<open>Every integer below the overflow threshold has an integer for its double.\<close>

lemma toDouble_integral:
  assumes "\<not> (2 ^ 1024 - 2 ^ 970) * 1 \<le> n"
  shows "\<exists>u. toDouble n 1 = Some u \<and> 2 ^ 1074 dvd u"
proof (cases "0 < n \<and> 53 < bitLength n")
  case True
  define s where "s = bitLength (n * 2 ^ 1074 div 1) - 53"
  have "s = bitLength n + 1021"
    using True unfolding s_def by (simp only: div_by_1 bitLength_shift)
  with True have "1074 \<le> s" by simp
  then have "(2::nat) ^ 1074 dvd 2 ^ s" by (rule le_imp_power_dvd)
  then have "2 ^ 1074 dvd roundHalfEven (n * 2 ^ 1074) (1 * 2 ^ s) * 2 ^ s"
    by (rule dvd_mult)
  then show ?thesis
    using assms unfolding toDouble_def Let_def s_def [symmetric]
    by (simp only: if_False option.inject simp_thms ex_simps)
next
  case False
  show ?thesis
  proof (cases "n = 0")
    case True
    then show ?thesis by (simp add: toDouble_def roundHalfEven_def)
  next
    case nz: False
    with False have "bitLength n - 53 = 0" by simp
    then have "2 ^ (bitLength n - 53) dvd n" by simp
    with nz assms have "toDouble n 1 = Some (n * 2 ^ 1074)"
      by (intro toDouble_exact) simp_all
    then show ?thesis by (simp only: option.inject dvd_triv_right ex_simps simp_thms)
  qed
qed

lemma toDouble_small: "n \<le> 2 ^ 53 \<Longrightarrow> toDouble n 1 = Some (n * 2 ^ 1074)"
proof (cases "n = 0")
  case True
  then show ?thesis by (simp add: toDouble_def roundHalfEven_def)
next
  case False
  assume "n \<le> 2 ^ 53"
  then have "\<not> (2 ^ 1024 - 2 ^ 970) * 1 \<le> n" and "2 ^ (bitLength n - 53) dvd n"
    by (simp_all add: bitLength_fits)
  with False show ?thesis by (intro toDouble_exact) simp_all
qed

lemma toIndex_NaN: "toIndex NaN = None"
  by (simp add: toIndex_def)

lemma toIndex_Infinity: "toIndex (Infinity neg) = None"
  by (simp add: toIndex_def)

lemma toIndex_small:
  assumes "0 \<le> e" and "m * 10 ^ nat e \<le> 2 ^ 53"
  shows "toIndex (Decimal neg m e) = (if neg \<and> 0 < m then None else Some (m * 10 ^ nat e))"
proof -
  have "toDouble (m * 10 ^ nat e) 1 = Some (m * 10 ^ nat e * 2 ^ 1074)"
    using assms(2) by (rule toDouble_small)
  moreover have "(m * 10 ^ nat e * 2 ^ 1074 = 0) = (m = 0)" by simp
  moreover have "m * 10 ^ nat e * 2 ^ 1074 div 2 ^ 1074 = m * 10 ^ nat e" by simp
  ultimately show ?thesis
    unfolding toIndex_def using assms(1)
    by (simp only: jsnumber.case if_True option.case dvd_triv_right simp_thms) auto
qed

lemma toIndex_digits:
  "toIndex (Decimal False n 0) \<noteq> None \<longleftrightarrow> n < 2 ^ 1024 - 2 ^ 970"
proof (cases "(2 ^ 1024 - 2 ^ 970) * 1 \<le> n")
  case True
  then have "toDouble n 1 = None" unfolding toDouble_def by (simp only: if_True)
  then have "toIndex (Decimal False n 0) = None"
    unfolding toIndex_def by (simp add: toDouble_def)
  with True show ?thesis by simp
next
  case False
  then obtain u where "toDouble n 1 = Some u" "2 ^ 1074 dvd u"
    using toDouble_integral by blast
  then have "toIndex (Decimal False n 0) = Some (u div 2 ^ 1074)"
    unfolding toIndex_def by simp
  with False show ?thesis by simp
qed

section \<open>Evaluating the model\<close>

lemmas evalDefs = flattenToNestedObject_def tokenize_def isDigit_def replaceBracketed.simps
  stripLeading.simps Number_def parseUnsignedDecimal_def parseExponent_def parseRadix_def
  digitOf_def trim_def spaceSeqs_def strictIndex_def toIndex_NaN toIndex_Infinity
  toIndex_small isStrictIndex_def represented_def unmodelled_def kAsNumber_def arrayIndex_def ToString.simps digitChar_def hasProp_def get_def setElem_def
  isArray_def isPrimitive_def truthy_def truthyScalar_def objectPrototype_def
  arrayPrototype_def inherited_def emptyOf_def existingType_def expectedType_def
  create_def slotOf_def fill_def assigned_def obj_def arr_def Let_def fmmap_fmupd
  fmupd_reorder_neq

lemmas sanDefs = sanitizeIssues_def RESTRICTED_DATA_FIELDS_def sanitizeArktypeIssues_def
  sanitizeValibotIssues_def arrayMap_def sanitizeArktypeIssue_def sanitizeValibotIssue_def
  sanitizePathEntry_def lookup_def deleteProp_def Let_def

section \<open>Compaction\<close>

lemma compactArrays_Undefined_iff: "compactArrays v = Prim Undefined \<longleftrightarrow> v = Prim Undefined"
  by (cases v) (auto simp: arr_def)

lemma assigned_map: "assigned (map (map_option f) xs) = map f (assigned xs)"
  by (induction xs) (auto simp: assigned_def split: option.splits)

lemma filter_map_compactArrays:
  "filter (\<lambda>val. val \<noteq> Prim Undefined) (map compactArrays vs) =
   map compactArrays (filter (\<lambda>val. val \<noteq> Prim Undefined) vs)"
  by (induction vs) (auto simp: compactArrays_Undefined_iff)

lemma dense_compactArrays: "dense (compactArrays t)"
proof (induction t)
  case (Prim s)
  then show ?case by simp
next
  case (Obj m)
  then show ?case by (auto simp: fmpred_iff intro: fmran'I)
next
  case (Arr xs m)
  have "v \<in> set (assigned xs) \<Longrightarrow> dense (compactArrays v)" for v
    using Arr by (auto simp: assigned_def split: option.splits)
  then show ?case
    by (auto simp: assigned_map list_all_iff)
qed

text \<open>
  C4 (amended). Compaction goes through the whole tree: a scalar stays as it is, a
  Mapping keeps every property, with its value compacted, and a Sequence is rebuilt from
  its elements: it keeps, in their order, the elements that hold a value other than
  \<^verbatim>\<open>undefined\<close>, each compacted in turn, and nothing else. So the holes go, and so does an
  element that was explicitly assigned \<^verbatim>\<open>undefined\<close> (a compacted value is \<^verbatim>\<open>undefined\<close>
  only if the value was), while \<^verbatim>\<open>null\<close>, \<^verbatim>\<open>false\<close>, \<^verbatim>\<open>0\<close> and the empty string stay;
  what a Sequence holds beside its elements (a value assigned at the index
  \<open>2\<^sup>3\<^sup>2 - 1\<close>, for one, is stored that way) is not kept. Whatever the decoder returns
  is dense: no Sequence at any depth has a hole or an \<^verbatim>\<open>undefined\<close> element.
\<close>

theorem compaction_keeps_all_but_undefined:
  "compactArrays (Prim s) = Prim s
   \<and> compactArrays (Obj m) = Obj (fmmap compactArrays m)
   \<and> compactArrays (Arr xs props) =
       arr (map compactArrays (filter (\<lambda>val. val \<noteq> Prim Undefined) (assigned xs)))
   \<and> (compactArrays v = Prim Undefined \<longleftrightarrow> v = Prim Undefined)
   \<and> dense (compactArrays t)
   \<and> (\<forall>flat result. flattenToNestedObject flat = Inr result \<longrightarrow> dense result)"
proof (intro conjI allI impI)
  show "compactArrays (Arr xs props) =
      arr (map compactArrays (filter (\<lambda>val. val \<noteq> Prim Undefined) (assigned xs)))"
    by (simp add: arr_def assigned_map filter_map_compactArrays)
  show "compactArrays v = Prim Undefined \<longleftrightarrow> v = Prim Undefined"
    by (rule compactArrays_Undefined_iff)
  show "dense (compactArrays t)" by (rule dense_compactArrays)
next
  fix flat result
  assume "flattenToNestedObject flat = Inr result"
  then obtain data where "result = compactArrays data"
    by (auto simp: flattenToNestedObject_def split: sum.splits)
  then show "dense result" by (simp add: dense_compactArrays)
qed simp_all

text \<open>
  The example of the specification: \<^verbatim>\<open>{"list[1]": null, "list[3]": false}\<close> is decoded to
  \<^verbatim>\<open>{list: [null, false]}\<close>, a dense value.
\<close>

theorem compaction_keeps_all_but_undefined_witness:
  "flattenToNestedObject [(''list[1]'', Null), (''list[3]'', Boolean False)] =
     Inr (obj [(''list'', arr [Prim Null, Prim (Boolean False)])])
   \<and> dense (obj [(''list'', arr [Prim Null, Prim (Boolean False)])])"
proof -
  have d: "flattenToNestedObject [(''list[1]'', Null), (''list[3]'', Boolean False)] =
     Inr (obj [(''list'', arr [Prim Null, Prim (Boolean False)])])"
    by (simp add: evalDefs)
  from compaction_keeps_all_but_undefined have
    "flattenToNestedObject [(''list[1]'', Null), (''list[3]'', Boolean False)] =
       Inr (obj [(''list'', arr [Prim Null, Prim (Boolean False)])]) \<longrightarrow>
     dense (obj [(''list'', arr [Prim Null, Prim (Boolean False)])])"
    by blast
  with d show ?thesis by simp
qed

text \<open>
  The claim as stated, that every position that was explicitly assigned survives, fails
  twice: an element that was assigned \<^verbatim>\<open>undefined\<close> is removed, and a value assigned at
  the strict index \<open>2\<^sup>3\<^sup>2 - 1\<close>, which is not an array index, is lost.
\<close>

theorem compaction_drops_explicit_undefined:
  "flattenToNestedObject [(''list[0]'', Undefined), (''list[1]'', Str ''x'')] =
     Inr (obj [(''list'', arr [Prim (Str ''x'')])])
   \<and> flattenToNestedObject [(''list[4294967295]'', Str ''x'')] =
     Inr (obj [(''list'', arr [])])"
  by (simp add: evalDefs)

lemma compaction_in_nested_containers:
  "flattenToNestedObject
     [(''a.list[1]'', Str ''x''), (''a.list[3].tags[1]'', Str ''t''), (''m[1][1]'', Num 0)] =
     Inr (obj [(''a'', obj [(''list'', arr [Prim (Str ''x''), obj [(''tags'', arr [Prim (Str ''t'')])]])]),
               (''m'', arr [arr [Prim (Num 0)]])])"
  by (simp add: evalDefs)

section \<open>Failures of the decoder\<close>

text \<open>
  C1. The record \<^verbatim>\<open>{"a": "x", "a.b": "y"}\<close>: the second entry descends into the string
  that the first one stored, and \<^verbatim>\<open>"b" in "x"\<close> throws a \<^verbatim>\<open>TypeError\<close>, which is not
  the key-conflict error.
\<close>

theorem decode_descends_into_scalar:
  "flattenToNestedObject [(''a'', Str ''x''), (''a.b'', Str ''y'')] = Inl TypeError"
  by (simp add: evalDefs)

lemma decode_terminal_overwrite:
  "flattenToNestedObject [(''a.b.c'', Num 1), (''a.b'', Num 2)] =
     Inr (obj [(''a'', obj [(''b'', Prim (Num 2))])])"
  by (simp add: evalDefs)

section \<open>Properties of objects and arrays\<close>

lemma arrayIndex_SomeD: "arrayIndex k = Some n \<Longrightarrow> ToString n = k"
  by (auto simp: arrayIndex_def split: option.splits if_splits)

lemma arrayIndex_inj: "arrayIndex k = Some n \<Longrightarrow> arrayIndex k' = Some n \<Longrightarrow> k = k'"
  by (auto dest!: arrayIndex_SomeD)

lemma length_setElem: "length (setElem xs n v) = max (length xs) (Suc n)"
  by (auto simp: setElem_def)

lemma nth_setElem:
  "i < length (setElem xs n v) \<Longrightarrow>
   setElem xs n v ! i = (if i = n then Some v else if i < length xs then xs ! i else None)"
  by (auto simp: setElem_def nth_append nth_list_update)

lemma isPrimitive_setProp [simp]: "isPrimitive (setProp c k v) = isPrimitive c"
  by (cases c) (auto simp: isPrimitive_def split: option.splits)

lemma isArray_setProp [simp]: "isArray (setProp c k v) = isArray c"
  by (cases c) (auto simp: isArray_def split: option.splits)

lemma inherited_setProp [simp]: "inherited (setProp c k v) k' = inherited c k'"
  by (cases c) (auto simp: inherited_def split: option.splits)

lemma getProp_setProp:
  "\<not> isPrimitive c \<Longrightarrow> getProp (setProp c k v) k' = (if k' = k then Some v else getProp c k')"
proof (cases c)
  case (Prim s)
  assume "\<not> isPrimitive c"
  with Prim show ?thesis by (simp add: isPrimitive_def)
next
  case (Obj m)
  then show ?thesis by auto
next
  case (Arr xs m)
  show ?thesis
  proof (cases "arrayIndex k")
    case None
    with Arr show ?thesis by (auto split: option.splits)
  next
    case (Some n)
    show ?thesis
    proof (cases "arrayIndex k'")
      case None
      with Arr Some show ?thesis by auto
    next
      case (Some n')
      have "n' = n \<longleftrightarrow> k' = k"
        using Some \<open>arrayIndex k = Some n\<close> by (auto dest: arrayIndex_inj)
      with Arr Some \<open>arrayIndex k = Some n\<close> show ?thesis
        by (auto simp: length_setElem nth_setElem)
    qed
  qed
qed

lemma hasProp_setProp:
  "\<not> isPrimitive c \<Longrightarrow> hasProp (setProp c k v) k' \<longleftrightarrow> k' = k \<or> hasProp c k'"
  by (simp add: hasProp_def getProp_setProp)

lemma get_setProp:
  "\<not> isPrimitive c \<Longrightarrow> get (setProp c k v) k' = (if k' = k then v else get c k')"
  by (simp add: get_def getProp_setProp)

lemma slotOf_setProp [simp]: "slotOf (setProp c k v) k' = slotOf c k'"
  by (simp add: slotOf_def)

lemma existingType_setProp:
  "\<not> isPrimitive c \<Longrightarrow>
   existingType (setProp c k v) k' =
     (if k' = k then (if isArray v then array else object) else existingType c k')"
  by (simp add: existingType_def get_setProp)

lemma kind_not_array [simp]: "t \<noteq> array \<longleftrightarrow> t = object"
  by (cases t) simp_all

lemma kind_object_eq [simp]: "object = t \<longleftrightarrow> t = object"
  by auto

lemma isArray_emptyOf [simp]: "isArray (emptyOf t) \<longleftrightarrow> t = array"
  by (cases t) (simp_all add: emptyOf_def isArray_def)

lemma isPrimitive_emptyOf [simp]: "\<not> isPrimitive (emptyOf t)"
  by (cases t) (simp_all add: emptyOf_def isPrimitive_def)

lemma truthy_container: "\<not> isPrimitive v \<Longrightarrow> truthy v"
  by (cases v) (simp_all add: truthy_def isPrimitive_def)

lemma isArray_not_primitive: "isArray v \<Longrightarrow> \<not> isPrimitive v"
  by (cases v) (simp_all add: isArray_def isPrimitive_def)

section \<open>One step of the traversal\<close>

lemma isPrimitive_create [simp]: "isPrimitive (create c k n) = isPrimitive c"
  by (simp add: create_def)

lemma isArray_create [simp]: "isArray (create c k n) = isArray c"
  by (simp add: create_def)

lemma isPrimitive_fill [simp]: "isPrimitive (fill c k n) = isPrimitive c"
  by (simp add: fill_def)

lemma isArray_fill [simp]: "isArray (fill c k n) = isArray c"
  by (simp add: fill_def)

lemma inherited_create [simp]: "inherited (create c k n) k' = inherited c k'"
  by (simp add: create_def)

lemma inherited_fill [simp]: "inherited (fill c k n) k' = inherited c k'"
  by (simp add: fill_def)

lemma unmodelled_setProp [simp]: "unmodelled (setProp c k v) k' = unmodelled c k'"
  by (simp add: unmodelled_def)

lemma unmodelled_create [simp]: "unmodelled (create c k n) k' = unmodelled c k'"
  by (simp add: unmodelled_def)

lemma unmodelled_fill [simp]: "unmodelled (fill c k n) k' = unmodelled c k'"
  by (simp add: unmodelled_def)

lemma slotOf_create [simp]: "slotOf (create c k n) k' = slotOf c k'"
  by (simp add: slotOf_def)

lemma slotOf_fill [simp]: "slotOf (fill c k n) k' = slotOf c k'"
  by (simp add: slotOf_def)

text \<open>A traversal that succeeds leaves the kind of the container it started from.\<close>

lemma assignPath_kind:
  "assignPath key val c ks = Inr c' \<Longrightarrow> isPrimitive c' = isPrimitive c \<and> isArray c' = isArray c"
proof (induction key val c ks arbitrary: c' rule: assignPath.induct)
  case (1 key val current)
  then show ?case by simp
next
  case (2 key val current k)
  then show ?case by (auto split: if_splits)
next
  case (3 key val current k nextKey rest)
  then show ?case by (auto simp: Let_def split: if_splits sum.splits)
qed

lemma assignPath_not_primitive:
  "assignPath key val c ks = Inr c' \<Longrightarrow> ks \<noteq> [] \<Longrightarrow> \<not> isPrimitive c'"
proof -
  assume ok: "assignPath key val c ks = Inr c'" and "ks \<noteq> []"
  then obtain k r where "ks = k # r" by (cases ks) auto
  with ok have "\<not> isPrimitive c" by (cases r) (auto split: if_splits)
  with assignPath_kind [OF ok] show ?thesis by simp
qed

text \<open>What a successful intermediate step says about the container before it.\<close>

lemma assignPath_step:
  assumes "assignPath key val c (k # n # r) = Inr c'"
  obtains child where
    "\<not> isPrimitive c" "\<not> unmodelled c k"
    "hasProp c k \<longrightarrow> existingType c k = expectedType n"
    "assignPath key val (get (fill (create c k n) k n) (slotOf c k)) (n # r) = Inr child"
    "c' = setProp (fill (create c k n) k n) (slotOf c k) child"
  using assms by (auto simp: Let_def split: if_splits sum.splits)

text \<open>After the step, property \<open>k\<close> exists and is of the kind the next segment expects.\<close>

lemma existingType_create:
  "\<not> isPrimitive c \<Longrightarrow> hasProp c k \<longrightarrow> existingType c k = expectedType n \<Longrightarrow>
   hasProp (create c k n) k \<and> existingType (create c k n) k = expectedType n"
  by (auto simp: create_def hasProp_setProp existingType_setProp)

lemma isArray_new_container:
  "isArray (if isStrictIndex n then Arr [] fmempty else Obj fmempty) \<longleftrightarrow> expectedType n = array"
  by (simp add: isArray_def expectedType_def)

lemma existingType_fill:
  "\<not> isPrimitive c \<Longrightarrow> hasProp c k \<and> existingType c k = expectedType n \<Longrightarrow>
   hasProp (fill c k n) k \<and> existingType (fill c k n) k = expectedType n"
  by (auto simp: fill_def hasProp_setProp existingType_setProp isArray_new_container)

lemma after_step:
  assumes "assignPath key val c (k # n # r) = Inr c'"
  shows "\<not> isPrimitive c'" "\<not> unmodelled c' k" "hasProp c' k" "existingType c' k = expectedType n"
    "slotOf c' k = slotOf c k"
    "\<exists>child. assignPath key val (get (fill (create c k n) k n) (slotOf c k)) (n # r) = Inr child
       \<and> get c' (slotOf c k) = child \<and> \<not> isPrimitive child"
proof -
  from assms obtain child where st:
    "\<not> isPrimitive c" "\<not> unmodelled c k"
    "hasProp c k \<longrightarrow> existingType c k = expectedType n"
    "assignPath key val (get (fill (create c k n) k n) (slotOf c k)) (n # r) = Inr child"
    "c' = setProp (fill (create c k n) k n) (slotOf c k) child"
    by (rule assignPath_step)
  let ?f = "fill (create c k n) k n"
  have np: "\<not> isPrimitive ?f" using st(1) by simp
  have chn: "\<not> isPrimitive child"
    using assignPath_not_primitive [OF st(4)] by simp
  have kind_child: "isArray child = isArray (get ?f (slotOf c k))"
    using assignPath_kind [OF st(4)] by simp
  have ex: "hasProp ?f k \<and> existingType ?f k = expectedType n"
    using existingType_fill [OF _ existingType_create [OF st(1) st(3)]] st(1) by simp
  show "\<not> isPrimitive c'" using st(5) np by simp
  show "\<not> unmodelled c' k" using st(5) st(2) by simp
  show "hasProp c' k" using st(5) np ex by (simp add: hasProp_setProp)
  show "existingType c' k = expectedType n"
  proof (cases "slotOf c k = k")
    case True
    have "existingType ?f k = (if isArray (get ?f k) then array else object)"
      by (simp add: existingType_def)
    with ex True kind_child st(5) np show ?thesis
      by (simp add: existingType_setProp)
  next
    case False
    with st(5) np ex show ?thesis by (simp add: existingType_setProp)
  qed
  show "slotOf c' k = slotOf c k" using st(5) by (simp add: slotOf_def)
  show "\<exists>child. assignPath key val (get ?f (slotOf c k)) (n # r) = Inr child
       \<and> get c' (slotOf c k) = child \<and> \<not> isPrimitive child"
    using st(4) st(5) np chn by (auto simp: get_setProp)
qed

text \<open>
  A second traversal whose first two segments are the same goes through the same step
  without a conflict and without creating anything, and descends into the same child.
\<close>

lemma second_traversal_step:
  assumes first: "assignPath key1 val1 c (k # n # r) = Inr c'"
  shows "assignPath key2 val2 c' (k # n # r') =
           (case assignPath key2 val2 (get c' (slotOf c' k)) (n # r') of
              Inl e \<Rightarrow> Inl e
            | Inr child \<Rightarrow> Inr (setProp c' (slotOf c' k) child))"
proof -
  note a = after_step [OF first]
  from a(5,6) have tr: "truthy (get c' (slotOf c' k))"
    by (auto intro: truthy_container)
  have cr: "create c' k n = c'" using a(3) by (simp add: create_def)
  have "slotOf c' k = kAsNumber k" if "isStrictIndex k" "isArray c'"
    using that by (simp add: slotOf_def)
  with tr have fi: "fill c' k n = c'" by (auto simp: fill_def)
  show ?thesis
    using a(1,2,3,4) cr fi by (simp add: Let_def)
qed

section \<open>Conflicts and terminal assignments\<close>

lemma assignAll_append:
  "assignAll (xs @ ys) data =
     (case assignAll xs data of Inl e \<Rightarrow> Inl e | Inr data' \<Rightarrow> assignAll ys data')"
  by (induction xs arbitrary: data) (auto split: sum.splits)

lemma expectedType_neq: "expectedType x \<noteq> expectedType y \<longleftrightarrow> isStrictIndex x \<noteq> isStrictIndex y"
  by (auto simp: expectedType_def)

lemma conflict_after_success:
  assumes "assignPath key1 val1 data (c @ k # x # r1) = Inr data1"
    and "isStrictIndex x \<noteq> isStrictIndex y"
  shows "assignPath key2 val2 data1 (c @ k # y # r2) =
           Inl (KeyConflict k (expectedType x) y (expectedType y) key2)"
  using assms(1)
proof (induction c arbitrary: data data1)
  case Nil
  then have first: "assignPath key1 val1 data (k # x # r1) = Inr data1" by simp
  note a = after_step [OF first]
  with assms(2) show ?case
    by (simp add: expectedType_neq)
next
  case (Cons k0 c)
  obtain n r r' where split: "c @ k # x # r1 = n # r" "c @ k # y # r2 = n # r'"
    by (cases c) auto
  with Cons.prems have first: "assignPath key1 val1 data (k0 # n # r) = Inr data1" by simp
  from after_step(5,6) [OF first] obtain child where
    child: "assignPath key1 val1 (get (fill (create data k0 n) k0 n) (slotOf data k0)) (n # r) = Inr child"
      "get data1 (slotOf data1 k0) = child"
    by auto
  from child(1) split(1) have
    "assignPath key2 val2 child (c @ k # y # r2) =
       Inl (KeyConflict k (expectedType x) y (expectedType y) key2)"
    by (intro Cons.IH) simp
  with second_traversal_step [OF first, of key2 val2 r'] child(2) split(2) show ?case
    by simp
qed

text \<open>
  The check does what it is meant to do for two entries that follow one another: if an
  entry has just been decoded and the next one shares the segments \<open>c @ [k]\<close> with it but
  goes on with a segment of the other kind, the conflict error is raised, whichever of the
  two entries comes first.
\<close>

lemma consecutive_conflict:
  assumes "tokenize key1 = c @ k # x # r1" and "tokenize key2 = c @ k # y # r2"
    and "isStrictIndex x \<noteq> isStrictIndex y"
    and "assignAll (before @ [(key1, val1)]) (Obj fmempty) = Inr data1"
  shows "flattenToNestedObject (before @ (key1, val1) # (key2, val2) # after) =
           Inl (KeyConflict k (expectedType x) y (expectedType y) key2)"
proof -
  from assms(4) obtain data0 where
    d0: "assignAll before (Obj fmempty) = Inr data0"
    and d1: "assignPath key1 val1 data0 (tokenize key1) = Inr data1"
    by (auto simp: assignAll_append split: sum.splits)
  from d1 assms(1) have "assignPath key1 val1 data0 (c @ k # x # r1) = Inr data1" by simp
  from conflict_after_success [OF this assms(3), of key2 val2 r2] assms(2)
  have "assignPath key2 val2 data1 (tokenize key2) =
          Inl (KeyConflict k (expectedType x) y (expectedType y) key2)"
    by simp
  with d0 d1 show ?thesis
    by (simp add: flattenToNestedObject_def assignAll_append)
qed

lemma decode_user_conflict:
  "flattenToNestedObject [(''user.name'', Str ''Alice''), (''user[0]'', Str ''first'')] =
     Inl (KeyConflict ''user'' object ''0'' array ''user[0]'')
   \<and> flattenToNestedObject [(''user[0]'', Str ''first''), (''user.name'', Str ''Alice'')] =
     Inl (KeyConflict ''user'' array ''name'' object ''user.name'')"
  by (simp add: evalDefs)

text \<open>
  C3 (fails on the code). The paths \<^verbatim>\<open>a[0][0]\<close> and \<^verbatim>\<open>a[0].name\<close> require a Sequence and a
  Mapping at the same non-terminal position \<^verbatim>\<open>a[0]\<close>. With the entry \<^verbatim>\<open>a[0] = ""\<close> between
  them, decoding raises the conflict error when \<^verbatim>\<open>a[0].name\<close> comes first and \<^verbatim>\<open>a[0][0]\<close>
  last, but returns \<^verbatim>\<open>{a: [{name: "A"}]}\<close> without any error when the two change places:
  the empty string that has replaced the array is taken for an object by the check, and the
  traversal then replaces it, being falsy, by a new object.
\<close>

theorem overwritten_conflict_not_detected:
  "flattenToNestedObject
     [(''a[0][0]'', Str ''f''), (''a[0]'', Str []), (''a[0].name'', Str ''A'')] =
     Inr (obj [(''a'', arr [obj [(''name'', Prim (Str ''A''))]])])
   \<and> flattenToNestedObject
     [(''a[0].name'', Str ''A''), (''a[0]'', Str []), (''a[0][0]'', Str ''f'')] =
     Inl (KeyConflict ''0'' object ''0'' array ''a[0][0]'')"
  by (simp add: evalDefs)

text \<open>
  The same happens with two entries only when the index is written in two ways: the
  paths \<^verbatim>\<open>a[1].x\<close> and \<^verbatim>\<open>a[01][0]\<close> require a Mapping and a Sequence at the element 1 of
  \<^verbatim>\<open>a\<close>. The check looks for the property \<^verbatim>\<open>"01"\<close>, which the array does not have, while
  the traversal goes to the element 1: in this order the record is decoded to
  \<^verbatim>\<open>{a: [{x: 1, 0: 2}]}\<close>, in the other order the conflict error is raised.
\<close>

lemma respelled_conflict_not_detected:
  "flattenToNestedObject [(''a[1].x'', Num 1), (''a[01][0]'', Num 2)] =
     Inr (obj [(''a'', arr [obj [(''x'', Prim (Num 1)), (''0'', Prim (Num 2))]])])
   \<and> flattenToNestedObject [(''a[01][0]'', Num 2), (''a[1].x'', Num 1)] =
     Inl (KeyConflict ''1'' array ''x'' object ''a[1].x'')"
  by (simp add: evalDefs)

section \<open>Terminal assignments\<close>

text \<open>A conflict error names a segment of the entry's key and the segment after it.\<close>

lemma assignPath_conflict:
  "assignPath key val c ks = Inl (KeyConflict k e nk x key') \<Longrightarrow>
   key' = key \<and> (\<exists>i. Suc i < length ks \<and> ks ! i = k \<and> ks ! Suc i = nk)"
proof (induction key val c ks rule: assignPath.induct)
  case (1 key val current)
  then show ?case by simp
next
  case (2 key val current k0)
  then show ?case by (simp split: if_splits)
next
  case (3 key val current k0 nextKey rest)
  let ?f = "fill (create current k0 nextKey) k0 nextKey"
  from "3.prems" consider
      (here) "k = k0" "nk = nextKey" "key' = key"
    | (below) "\<not> isPrimitive current" "\<not> unmodelled current k0"
        "\<not> (hasProp current k0 \<and> existingType current k0 \<noteq> expectedType nextKey)"
        "assignPath key val (get ?f (slotOf ?f k0)) (nextKey # rest) =
           Inl (KeyConflict k e nk x key')"
    by (auto simp: Let_def split: if_splits sum.splits)
  then show ?case
  proof cases
    case here
    then have "Suc 0 < length (k0 # nextKey # rest) \<and> (k0 # nextKey # rest) ! 0 = k
      \<and> (k0 # nextKey # rest) ! Suc 0 = nk" by simp
    with here(3) show ?thesis by blast
  next
    case below
    from "3.IH" [OF below(1,2,3) refl refl below(4)] obtain i where
      "key' = key" "Suc i < length (nextKey # rest)" "(nextKey # rest) ! i = k"
      "(nextKey # rest) ! Suc i = nk"
      by auto
    then have "Suc (Suc i) < length (k0 # nextKey # rest) \<and> (k0 # nextKey # rest) ! Suc i = k
      \<and> (k0 # nextKey # rest) ! Suc (Suc i) = nk" by simp
    with \<open>key' = key\<close> show ?thesis by blast
  qed
qed

lemma assignAll_conflict:
  "assignAll flat data = Inl (KeyConflict k e nk x key) \<Longrightarrow>
   key \<in> fst ` set flat
   \<and> (\<exists>i. Suc i < length (tokenize key) \<and> tokenize key ! i = k \<and> tokenize key ! Suc i = nk)"
proof (induction flat arbitrary: data)
  case Nil
  then show ?case by simp
next
  case (Cons entry flat)
  obtain key0 val0 where entry: "entry = (key0, val0)" by (cases entry)
  show ?case
  proof (cases "assignPath key0 val0 data (tokenize key0)")
    case (Inl err)
    with Cons.prems entry have
      "assignPath key0 val0 data (tokenize key0) = Inl (KeyConflict k e nk x key)" by simp
    from assignPath_conflict [OF this] entry show ?thesis by auto
  next
    case (Inr data')
    with Cons.prems entry have "assignAll flat data' = Inl (KeyConflict k e nk x key)" by simp
    from Cons.IH [OF this] show ?thesis by auto
  qed
qed

text \<open>An entry that is decoded without error leaves its value at the position of its path.\<close>

lemma assignPath_follow:
  "assignPath key val c ks = Inr c' \<Longrightarrow> ks \<noteq> [] \<Longrightarrow> follow c' ks = Prim val"
proof (induction key val c ks arbitrary: c' rule: assignPath.induct)
  case (1 key val current)
  then show ?case by simp
next
  case (2 key val current k)
  then show ?case by (auto simp: get_setProp split: if_splits)
next
  case (3 key val current k nextKey rest)
  note first = "3.prems"(1)
  let ?f = "fill (create current k nextKey) k nextKey"
  from first obtain child where
    st: "\<not> isPrimitive current" "\<not> unmodelled current k"
      "hasProp current k \<longrightarrow> existingType current k = expectedType nextKey"
      "assignPath key val (get ?f (slotOf current k)) (nextKey # rest) = Inr child"
      "c' = setProp ?f (slotOf current k) child"
    by (rule assignPath_step)
  from st(3) have nc: "\<not> (hasProp current k \<and> existingType current k \<noteq> expectedType nextKey)"
    by simp
  have "follow child (nextKey # rest) = Prim val"
    using "3.IH" [OF st(1,2) nc refl refl] st(4) by simp
  moreover have "get c' (slotOf c' k) = child"
    using after_step(5,6) [OF first] st(4) by auto
  ultimately show ?case by simp
qed

lemma prefix_holds_container:
  assumes "assignPath key1 val1 data (ks @ q) = Inr data1" and "ks \<noteq> []" and "q \<noteq> []"
  shows "\<not> isPrimitive (follow data1 ks)
         \<and> (\<exists>data2. assignPath key2 val2 data1 ks = Inr data2)"
  using assms(2,1)
proof (induction ks arbitrary: data data1 rule: list_nonempty_induct)
  case (single k)
  from \<open>q \<noteq> []\<close> obtain n r where q: "q = n # r" by (cases q) auto
  with single have first: "assignPath key1 val1 data (k # n # r) = Inr data1" by simp
  note a = after_step [OF first]
  then show ?case by auto
next
  case (cons k ks)
  from \<open>ks \<noteq> []\<close> obtain n r where ks: "ks = n # r" by (cases ks) auto
  with cons.prems have first: "assignPath key1 val1 data (k # n # (r @ q)) = Inr data1" by simp
  from after_step(1,5,6) [OF first] obtain child where
    child: "assignPath key1 val1 (get (fill (create data k n) k n) (slotOf data k)) (n # r @ q) = Inr child"
      "get data1 (slotOf data1 k) = child" and np: "\<not> isPrimitive data1"
    by auto
  from child(1) ks have
    ih: "\<not> isPrimitive (follow child ks) \<and> (\<exists>child2. assignPath key2 val2 child ks = Inr child2)"
    by (intro cons.IH) simp
  then obtain child2 where c2: "assignPath key2 val2 child ks = Inr child2"
    by auto
  have "assignPath key2 val2 data1 (k # ks) = Inr (setProp data1 (slotOf data1 k) child2)"
    using second_traversal_step [OF first, of key2 val2 r] child(2) c2 ks by simp
  moreover have "\<not> isPrimitive (follow data1 (k # ks))"
    using ih child(2) by simp
  ultimately show ?case by auto
qed

text \<open>
  C10. The conflict check is part of the intermediate step only. (1) Whenever decoding
  fails with the conflict error, the segment the error names is a segment of the entry's
  key that is followed by another segment (the one the error names as the next key): the
  last segment of a key never raises it. (2) When an entry has been decoded along the
  segments \<open>ks @ q\<close> (after any entries before it), the position that \<open>ks\<close> addresses holds a
  container, and an entry processed next whose segments are exactly \<open>ks\<close> is decoded
  without any error: afterwards that position holds the entry's scalar, and the decoder
  returns the compacted tree. (3) More generally, every entry that is processed without
  error leaves its scalar at the position of its path, whatever that position held.
\<close>

theorem terminal_assignment_overwrites:
  "(\<forall>flat k e nk x key.
      flattenToNestedObject flat = Inl (KeyConflict k e nk x key) \<longrightarrow>
      key \<in> fst ` set flat \<and>
      (\<exists>i. Suc i < length (tokenize key) \<and> tokenize key ! i = k \<and> tokenize key ! Suc i = nk))
   \<and> (\<forall>before key1 val1 key2 val2 q data1.
        assignAll (before @ [(key1, val1)]) (Obj fmempty) = Inr data1
        \<and> tokenize key1 = tokenize key2 @ q \<and> q \<noteq> [] \<and> tokenize key2 \<noteq> [] \<longrightarrow>
        \<not> isPrimitive (follow data1 (tokenize key2))
        \<and> (\<exists>data2.
              assignAll (before @ [(key1, val1), (key2, val2)]) (Obj fmempty) = Inr data2
              \<and> follow data2 (tokenize key2) = Prim val2
              \<and> flattenToNestedObject (before @ [(key1, val1), (key2, val2)]) =
                  Inr (compactArrays data2)))
   \<and> (\<forall>before key val data.
        assignAll (before @ [(key, val)]) (Obj fmempty) = Inr data \<and> tokenize key \<noteq> [] \<longrightarrow>
        follow data (tokenize key) = Prim val)"
proof (intro conjI allI impI)
  fix flat k e nk x key
  assume "flattenToNestedObject flat = Inl (KeyConflict k e nk x key)"
  then have c: "assignAll flat (Obj fmempty) = Inl (KeyConflict k e nk x key)"
    by (simp add: flattenToNestedObject_def split: sum.splits)
  from assignAll_conflict [OF c] show "key \<in> fst ` set flat" by simp
  from assignAll_conflict [OF c]
  show "\<exists>i. Suc i < length (tokenize key) \<and> tokenize key ! i = k \<and> tokenize key ! Suc i = nk"
    by simp
next
  fix before key1 val1 key2 val2 q data1
  assume asm: "assignAll (before @ [(key1, val1)]) (Obj fmempty) = Inr data1
        \<and> tokenize key1 = tokenize key2 @ q \<and> q \<noteq> [] \<and> tokenize key2 \<noteq> []"
  then obtain data0 where
    d0: "assignAll before (Obj fmempty) = Inr data0"
    and d1: "assignPath key1 val1 data0 (tokenize key2 @ q) = Inr data1"
    by (auto simp: assignAll_append split: sum.splits)
  from asm have ne: "tokenize key2 \<noteq> []" "q \<noteq> []" by simp_all
  from prefix_holds_container [OF d1 ne, of key2 val2] obtain data2 where
    np: "\<not> isPrimitive (follow data1 (tokenize key2))"
    and d2: "assignPath key2 val2 data1 (tokenize key2) = Inr data2"
    by auto
  from np show "\<not> isPrimitive (follow data1 (tokenize key2))" .
  from asm d0 d1 d2 have all:
    "assignAll (before @ [(key1, val1), (key2, val2)]) (Obj fmempty) = Inr data2"
    by (simp add: assignAll_append)
  moreover from assignPath_follow [OF d2 ne(1)]
  have "follow data2 (tokenize key2) = Prim val2" .
  moreover from all have
    "flattenToNestedObject (before @ [(key1, val1), (key2, val2)]) = Inr (compactArrays data2)"
    by (simp add: flattenToNestedObject_def)
  ultimately show "\<exists>data2.
      assignAll (before @ [(key1, val1), (key2, val2)]) (Obj fmempty) = Inr data2
      \<and> follow data2 (tokenize key2) = Prim val2
      \<and> flattenToNestedObject (before @ [(key1, val1), (key2, val2)]) =
          Inr (compactArrays data2)"
    by blast
next
  fix before key val data
  assume asm: "assignAll (before @ [(key, val)]) (Obj fmempty) = Inr data \<and> tokenize key \<noteq> []"
  then obtain data0 where "assignPath key val data0 (tokenize key) = Inr data"
    by (auto simp: assignAll_append split: sum.splits)
  from assignPath_follow [OF this] asm show "follow data (tokenize key) = Prim val" by simp
qed

text \<open>
  The example of the claim: \<^verbatim>\<open>{"a.b.c": 1}\<close> and then \<^verbatim>\<open>{"a.b": 2}\<close> is decoded to
  \<^verbatim>\<open>{a: {b: 2}}\<close>.
\<close>

theorem terminal_assignment_overwrites_witness:
  "\<not> isPrimitive (follow (obj [(''a'', obj [(''b'', obj [(''c'', Prim (Num 1))])])]) [''a'', ''b''])
   \<and> flattenToNestedObject [(''a.b.c'', Num 1), (''a.b'', Num 2)] =
       Inr (obj [(''a'', obj [(''b'', Prim (Num 2))])])
   \<and> follow (obj [(''a'', obj [(''b'', Prim (Num 2))])]) [''a'', ''b''] = Prim (Num 2)"
proof -
  have first: "assignAll ([] @ [(''a.b.c'', Num 1)]) (Obj fmempty) =
      Inr (obj [(''a'', obj [(''b'', obj [(''c'', Prim (Num 1))])])])"
    by (simp add: evalDefs)
  have toks: "tokenize ''a.b.c'' = tokenize ''a.b'' @ [''c'']" "tokenize ''a.b'' = [''a'', ''b'']"
    by (simp_all add: evalDefs)
  have second: "assignAll ([] @ [(''a.b.c'', Num 1), (''a.b'', Num 2)]) (Obj fmempty) =
      Inr (obj [(''a'', obj [(''b'', Prim (Num 2))])])"
    by (simp add: evalDefs)
  have comp: "compactArrays (obj [(''a'', obj [(''b'', Prim (Num 2))])]) =
      obj [(''a'', obj [(''b'', Prim (Num 2))])]"
    by (simp add: evalDefs)
  from terminal_assignment_overwrites have
    "assignAll ([] @ [(''a.b.c'', Num 1)]) (Obj fmempty) =
        Inr (obj [(''a'', obj [(''b'', obj [(''c'', Prim (Num 1))])])])
      \<and> tokenize ''a.b.c'' = tokenize ''a.b'' @ [''c''] \<and> [''c''] \<noteq> [] \<and> tokenize ''a.b'' \<noteq> [] \<longrightarrow>
      \<not> isPrimitive (follow (obj [(''a'', obj [(''b'', obj [(''c'', Prim (Num 1))])])]) (tokenize ''a.b''))
      \<and> (\<exists>data2.
            assignAll ([] @ [(''a.b.c'', Num 1), (''a.b'', Num 2)]) (Obj fmempty) = Inr data2
            \<and> follow data2 (tokenize ''a.b'') = Prim (Num 2)
            \<and> flattenToNestedObject ([] @ [(''a.b.c'', Num 1), (''a.b'', Num 2)]) =
                Inr (compactArrays data2))"
    by blast
  with first toks second comp show ?thesis
    by simp
qed

section \<open>The order of the entries\<close>

lemma setElem_overwrite: "setElem (setElem xs n u) n v = setElem xs n v"
  by (rule nth_equalityI) (auto simp: length_setElem nth_setElem)

lemma setElem_commute:
  "i \<noteq> j \<Longrightarrow> setElem (setElem xs i v) j w = setElem (setElem xs j w) i v"
  by (rule nth_equalityI) (auto simp: length_setElem nth_setElem)

lemma setProp_overwrite: "setProp (setProp c k u) k v = setProp c k v"
  by (cases c) (auto simp: setElem_overwrite split: option.splits)

lemma setProp_commute:
  "a \<noteq> b \<Longrightarrow> setProp (setProp c a v) b w = setProp (setProp c b w) a v"
proof (cases c)
  case (Prim s)
  then show ?thesis by simp
next
  case (Obj m)
  assume "a \<noteq> b"
  with Obj show ?thesis by (simp add: fmupd_reorder_neq)
next
  case (Arr xs m)
  assume "a \<noteq> b"
  show ?thesis
  proof (cases "arrayIndex a")
    case None
    with Arr \<open>a \<noteq> b\<close> show ?thesis
      by (auto simp: fmupd_reorder_neq split: option.splits)
  next
    case (Some i)
    show ?thesis
    proof (cases "arrayIndex b")
      case None
      with Arr Some show ?thesis by simp
    next
      case (Some j)
      with \<open>arrayIndex a = Some i\<close> \<open>a \<noteq> b\<close> have "i \<noteq> j"
        by (auto dest: arrayIndex_inj)
      with Arr Some \<open>arrayIndex a = Some i\<close> show ?thesis
        by (simp add: setElem_commute)
    qed
  qed
qed

lemma plain_slotOf [simp]: "plainSegment k \<Longrightarrow> slotOf c k = k"
  by (simp add: plainSegment_def slotOf_def)

lemma plain_kAsNumber [simp]: "plainSegment k \<Longrightarrow> kAsNumber k = k"
  by (simp add: plainSegment_def)

lemma plain_modelled [simp]: "plainSegment k \<Longrightarrow> \<not> unmodelled c k"
  by (cases c) (auto simp: plainSegment_def unmodelled_def inherited_def)

text \<open>A step through plain segments only writes the property of its first segment.\<close>

lemma create_plain:
  "\<not> isPrimitive c \<Longrightarrow> \<exists>u. create c k n = c \<or> create c k n = setProp c k u"
  by (auto simp: create_def)

lemma assignPath_shape:
  assumes "assignPath key val c (k # r) = Inr c'" and "plainSegment k"
  shows "\<exists>v. c' = setProp c k v"
proof (cases r)
  case Nil
  with assms show ?thesis by (auto split: if_splits)
next
  case (Cons n r')
  with assms(1) have first: "assignPath key val c (k # n # r') = Inr c'" by simp
  from first obtain child where
    c': "c' = setProp (fill (create c k n) k n) (slotOf c k) child"
    by (rule assignPath_step)
  have "\<exists>u. fill (create c k n) k n = c \<or> fill (create c k n) k n = setProp c k u"
    using assms(2) by (auto simp: fill_def create_def setProp_overwrite)
  with c' assms(2) show ?thesis by (auto simp: setProp_overwrite)
qed

text \<open>The step of another segment goes its way whatever that property holds.\<close>

lemma create_frame:
  "a \<noteq> b \<Longrightarrow> \<not> isPrimitive c \<Longrightarrow>
   create (setProp c a v) b n = setProp (create c b n) a v"
  by (auto simp: create_def hasProp_setProp setProp_commute)

lemma fill_frame:
  "a \<noteq> b \<Longrightarrow> \<not> isPrimitive c \<Longrightarrow> plainSegment b \<Longrightarrow>
   fill (setProp c a v) b n = setProp (fill c b n) a v"
  by (auto simp: fill_def get_setProp setProp_commute)

lemma assignPath_frame:
  assumes "a \<noteq> b" and "plainSegment b"
  shows "assignPath key val (setProp c a v) (b # r) =
           (case assignPath key val c (b # r) of
              Inl e \<Rightarrow> Inl e
            | Inr c2 \<Rightarrow> Inr (setProp c2 a v))"
proof (cases "isPrimitive c")
  case True
  then show ?thesis by (cases r) simp_all
next
  case False
  show ?thesis
  proof (cases r)
    case Nil
    with False assms show ?thesis by (simp add: setProp_commute)
  next
    case (Cons n r')
    let ?f = "fill (create c b n) b n"
    have f: "fill (create (setProp c a v) b n) b n = setProp ?f a v"
      using assms False by (simp add: create_frame fill_frame)
    have np: "\<not> isPrimitive ?f" using False by simp
    have g: "get (setProp ?f a v) b = get ?f b"
      using assms(1) np by (simp add: get_setProp)
    show ?thesis
      unfolding Cons assignPath.simps Let_def f
      using assms False np g
      by (auto simp: hasProp_setProp existingType_setProp setProp_commute split: sum.splits)
  qed
qed

text \<open>
  A later traversal through the same segment \<open>k\<close>, with a next segment of the same kind,
  passes the check, creates nothing and descends into the child that is there.
\<close>

lemma later_traversal_step:
  assumes first: "assignPath key1 val1 c (k # n # r) = Inr c'"
    and kind: "isStrictIndex n' = isStrictIndex n"
  shows "assignPath key2 val2 c' (k # n' # r') =
           (case assignPath key2 val2 (get c' (slotOf c' k)) (n' # r') of
              Inl e \<Rightarrow> Inl e
            | Inr child \<Rightarrow> Inr (setProp c' (slotOf c' k) child))"
proof -
  note a = after_step [OF first]
  from a(5,6) have tr: "truthy (get c' (slotOf c' k))"
    by (auto intro: truthy_container)
  have cr: "create c' k n' = c'" using a(3) by (simp add: create_def)
  have "slotOf c' k = kAsNumber k" if "isStrictIndex k" "isArray c'"
    using that by (simp add: slotOf_def)
  with tr have fi: "fill c' k n' = c'" by (auto simp: fill_def)
  have ex: "expectedType n' = expectedType n" using kind by (simp add: expectedType_def)
  show ?thesis
    using a(1,2,3,4) cr fi ex by (simp add: Let_def)
qed

lemma commute_parting:
  assumes "a \<noteq> b" and "plainSegment a" and "plainSegment b"
    and one: "assignPath key1 val1 c (a # r1) = Inr c1"
    and two: "assignPath key2 val2 c1 (b # r2) = Inr c12"
  shows "\<exists>c2. assignPath key2 val2 c (b # r2) = Inr c2
            \<and> assignPath key1 val1 c2 (a # r1) = Inr c12"
proof -
  from assignPath_shape [OF one assms(2)] obtain v1 where c1: "c1 = setProp c a v1" ..
  from two c1 assignPath_frame [OF assms(1,3), of key2 val2 c v1 r2]
  obtain c2 where c2: "assignPath key2 val2 c (b # r2) = Inr c2" and c12: "c12 = setProp c2 a v1"
    by (auto split: sum.splits)
  from assignPath_shape [OF c2 assms(3)] obtain v2 where c2': "c2 = setProp c b v2" ..
  have "assignPath key1 val1 c2 (a # r1) = Inr (setProp c1 b v2)"
    using assignPath_frame [OF assms(1) [symmetric] assms(2), of key1 val1 c v2 r1] one c2'
    by simp
  also have "setProp c1 b v2 = c12"
    using c1 c12 c2' assms(1) by (simp add: setProp_commute)
  finally show ?thesis using c2 by blast
qed

lemma commute_shared:
  assumes plain: "plainSegment k"
    and one: "assignPath key1 val1 c (k # n1 # r1) = Inr c1"
    and two: "assignPath key2 val2 c1 (k # n2 # r2) = Inr c12"
    and ih: "\<And>d d1 d12. assignPath key1 val1 d (n1 # r1) = Inr d1 \<Longrightarrow>
               assignPath key2 val2 d1 (n2 # r2) = Inr d12 \<Longrightarrow>
               \<exists>d2. assignPath key2 val2 d (n2 # r2) = Inr d2
                  \<and> assignPath key1 val1 d2 (n1 # r1) = Inr d12"
  shows "\<exists>c2. assignPath key2 val2 c (k # n2 # r2) = Inr c2
            \<and> assignPath key1 val1 c2 (k # n1 # r1) = Inr c12"
proof -
  let ?f = "fill (create c k n1) k n1"
  from one obtain child1 where st:
    "\<not> isPrimitive c" "\<not> unmodelled c k"
    "hasProp c k \<longrightarrow> existingType c k = expectedType n1"
    "assignPath key1 val1 (get ?f (slotOf c k)) (n1 # r1) = Inr child1"
    "c1 = setProp ?f (slotOf c k) child1"
    by (rule assignPath_step)
  note a = after_step [OF one]
  from two obtain x where "hasProp c1 k \<longrightarrow> existingType c1 k = expectedType n2"
    by (rule assignPath_step)
  with a(3,4) have ex: "expectedType n2 = expectedType n1" by simp
  then have kind: "isStrictIndex n2 = isStrictIndex n1"
    by (simp add: expectedType_def split: if_splits)
  have np: "\<not> isPrimitive ?f" using st(1) by simp
  have g1: "get c1 k = child1" using st(5) np plain by (simp add: get_setProp)
  from two later_traversal_step [OF one kind, of key2 val2 r2] g1 plain
  obtain child12 where
    ch12: "assignPath key2 val2 child1 (n2 # r2) = Inr child12"
    and c12: "c12 = setProp c1 k child12"
    by (auto split: sum.splits)
  from ih [OF _ ch12, of "get ?f k"] st(4) plain obtain child2 where
    ch2: "assignPath key2 val2 (get ?f k) (n2 # r2) = Inr child2"
    and ch21: "assignPath key1 val1 child2 (n1 # r1) = Inr child12"
    by auto
  have same: "fill (create c k n2) k n2 = ?f"
    using ex kind by (simp add: create_def fill_def)
  have rev1: "assignPath key2 val2 c (k # n2 # r2) = Inr (setProp ?f k child2)"
    using st(1,2,3) ex same ch2 plain by (simp add: Let_def)
  have g2: "get (setProp ?f k child2) k = child2" using np by (simp add: get_setProp)
  have rev2: "assignPath key1 val1 (setProp ?f k child2) (k # n1 # r1) =
      Inr (setProp (setProp ?f k child2) k child12)"
    using later_traversal_step [OF rev1 kind [symmetric], of key1 val1 r1] g2 ch21 plain
    by simp
  have "setProp (setProp ?f k child2) k child12 = c12"
    using c12 st(5) plain by (simp add: setProp_overwrite)
  with rev1 rev2 show ?thesis by auto
qed

text \<open>
  Two entries whose paths diverge, through plain segments, can change places: if decoding
  one and then the other gives a tree, so does decoding them the other way round, and it
  is the same tree.
\<close>

lemma commute_diverging:
  assumes "diverge ks1 ks2" and "list_all plainSegment ks1" and "list_all plainSegment ks2"
    and "assignPath key1 val1 c ks1 = Inr c1" and "assignPath key2 val2 c1 ks2 = Inr c12"
  shows "\<exists>c2. assignPath key2 val2 c ks2 = Inr c2 \<and> assignPath key1 val1 c2 ks1 = Inr c12"
  using assms
proof (induction ks1 ks2 arbitrary: c c1 c12 rule: diverge.induct)
  case (1 a r1 b r2)
  show ?case
  proof (cases "a = b")
    case False
    with "1.prems" show ?thesis by (intro commute_parting) simp_all
  next
    case True
    with "1.prems"(1) have d: "diverge r1 r2" by simp
    then obtain n1 r1' n2 r2' where r: "r1 = n1 # r1'" "r2 = n2 # r2'"
      by (cases r1; cases r2) auto
    have ih: "\<exists>d2. assignPath key2 val2 d (n2 # r2') = Inr d2
            \<and> assignPath key1 val1 d2 (n1 # r1') = Inr d12"
      if "assignPath key1 val1 d (n1 # r1') = Inr d1" "assignPath key2 val2 d1 (n2 # r2') = Inr d12"
      for d d1 d12
      using "1.IH" [OF True d, of d d1 d12] "1.prems"(2,3) that r by simp
    have plain: "plainSegment b" using "1.prems"(3) by simp
    have one: "assignPath key1 val1 c (b # n1 # r1') = Inr c1"
      using "1.prems"(4) True r by simp
    have two: "assignPath key2 val2 c1 (b # n2 # r2') = Inr c12"
      using "1.prems"(5) r by simp
    from commute_shared [OF plain one two ih] True r show ?thesis by simp
  qed
qed simp_all

lemma diverge_sym: "diverge ks1 ks2 = diverge ks2 ks1"
  by (induction ks1 ks2 rule: diverge.induct) auto

lemma assignEntry_None [simp]: "assignEntry x None = None"
  by (simp add: assignEntry_def)

lemma assignEntry_Some:
  "assignEntry x (Some d) = Some d' \<longleftrightarrow> assignPath (fst x) (snd x) d (tokenize (fst x)) = Inr d'"
  by (simp add: assignEntry_def split: sum.splits)

lemma assignEntry_twice:
  "assignEntry y (assignEntry x (Some d)) = Some d' \<longleftrightarrow>
   (\<exists>d1. assignPath (fst x) (snd x) d (tokenize (fst x)) = Inr d1
       \<and> assignPath (fst y) (snd y) d1 (tokenize (fst y)) = Inr d')"
  by (auto simp: assignEntry_def split: sum.splits option.splits)

lemma assignEntry_commute:
  assumes "diverge (tokenize (fst x)) (tokenize (fst y))"
    and "list_all plainSegment (tokenize (fst x))" and "list_all plainSegment (tokenize (fst y))"
  shows "assignEntry y (assignEntry x s) = assignEntry x (assignEntry y s)"
proof (cases s)
  case None
  then show ?thesis by simp
next
  case (Some d)
  have fwd: "assignEntry x (assignEntry y (Some d)) = Some d'"
    if "assignEntry y (assignEntry x (Some d)) = Some d'" for d'
    using that commute_diverging [OF assms(1,2,3)]
    unfolding assignEntry_twice by blast
  have bwd: "assignEntry y (assignEntry x (Some d)) = Some d'"
    if "assignEntry x (assignEntry y (Some d)) = Some d'" for d'
    using that commute_diverging [OF assms(1) [unfolded diverge_sym [of "tokenize (fst x)"]] assms(3,2)]
    unfolding assignEntry_twice by blast
  show ?thesis
  proof (cases "assignEntry y (assignEntry x (Some d))")
    case None
    with bwd have "assignEntry x (assignEntry y (Some d)) = None"
      by (cases "assignEntry x (assignEntry y (Some d))") auto
    with None Some show ?thesis by simp
  next
    case (Some d')
    with fwd \<open>s = Some d\<close> show ?thesis by simp
  qed
qed

lemma assignEntry_pair:
  "assignEntry (key, val) (Some d) =
     (case assignPath key val d (tokenize key) of Inl e \<Rightarrow> None | Inr d' \<Rightarrow> Some d')"
  by (simp add: assignEntry_def)

lemma fold_assignEntry_None [simp]: "fold assignEntry flat None = None"
  by (induction flat) simp_all

lemma assignAll_fold:
  "fold assignEntry flat (Some d) = (case assignAll flat d of Inl e \<Rightarrow> None | Inr d' \<Rightarrow> Some d')"
proof (induction flat arbitrary: d)
  case Nil
  then show ?case by simp
next
  case (Cons x flat)
  obtain key val where x: "x = (key, val)" by (cases x)
  show ?case
  proof (cases "assignPath key val d (tokenize key)")
    case (Inl e)
    with x show ?thesis by (simp add: assignEntry_pair)
  next
    case (Inr d')
    with x Cons show ?thesis by (simp add: assignEntry_pair)
  qed
qed

text \<open>On plain segments the model is never silent.\<close>

lemma assignPath_modelled:
  "list_all plainSegment ks \<Longrightarrow> assignPath key val c ks \<noteq> Inl (Unmodelled k)"
proof (induction key val c ks rule: assignPath.induct)
  case (1 key val current)
  then show ?case by simp
next
  case (2 key val current k0)
  then show ?case by simp
next
  case (3 key val current k0 nextKey rest)
  then show ?case by (auto simp: Let_def split: sum.splits)
qed

lemma assignAll_modelled:
  "\<forall>entry \<in> set flat. list_all plainSegment (tokenize (fst entry)) \<Longrightarrow>
   assignAll flat d \<noteq> Inl (Unmodelled k)"
proof (induction flat arbitrary: d)
  case Nil
  then show ?case by simp
next
  case (Cons x flat)
  obtain key val where x: "x = (key, val)" by (cases x)
  with Cons.prems have "assignPath key val d (tokenize key) \<noteq> Inl (Unmodelled k)"
    by (intro assignPath_modelled) simp
  with Cons x show ?case by (auto split: sum.splits)
qed

text \<open>
  The claim as stated fails: a record without any conflict between a Mapping and a
  Sequence is decoded differently in another order when two keys are two spellings of the
  same position (\<^verbatim>\<open>a.b\<close> and \<^verbatim>\<open>a[b]\<close>, or \<^verbatim>\<open>a[01]\<close> and \<^verbatim>\<open>a[1]\<close>: the entry processed last
  wins), and when the path of one key goes through the position of another (\<^verbatim>\<open>a.b.c\<close> and
  \<^verbatim>\<open>a.b\<close>).
\<close>

theorem last_entry_wins:
  "flattenToNestedObject [(''a.b'', Str ''1''), (''a[b]'', Str ''2'')] =
     Inr (obj [(''a'', obj [(''b'', Prim (Str ''2''))])])
   \<and> flattenToNestedObject [(''a[b]'', Str ''2''), (''a.b'', Str ''1'')] =
     Inr (obj [(''a'', obj [(''b'', Prim (Str ''1''))])])
   \<and> flattenToNestedObject [(''a[01]'', Str ''x''), (''a[1]'', Str ''y'')] =
     Inr (obj [(''a'', arr [Prim (Str ''y'')])])
   \<and> flattenToNestedObject [(''a[1]'', Str ''y''), (''a[01]'', Str ''x'')] =
     Inr (obj [(''a'', arr [Prim (Str ''x'')])])
   \<and> flattenToNestedObject [(''a.b.c'', Num 1), (''a.b'', Num 2)] =
     Inr (obj [(''a'', obj [(''b'', Prim (Num 2))])])
   \<and> flattenToNestedObject [(''a.b'', Num 2), (''a.b.c'', Num 1)] = Inl TypeError"
  by (simp add: evalDefs)

text \<open>
  C2 (amended). Take a record whose segments are all plain (a name that is not the name
  of a built-in property, or a strict index written as its decimal numeral, as in
  \<^verbatim>\<open>a[1]\<close>, not \<^verbatim>\<open>a[01]\<close>) and whose paths diverge two by two (no two keys have the same
  segments, and the segments of none are the beginning of those of another). Then the
  order of the entries does not matter: for every permutation of the entries, decoding
  returns a tree if and only if decoding the original does, and it is the same tree
  (Mappings being compared without regard to the order of their properties); which error
  is raised when decoding fails may depend on the order. On such a record the decoder
  stays within the model.
\<close>

theorem decoding_order_independent:
  assumes "\<forall>entry \<in> set flat. list_all plainSegment (tokenize (fst entry))"
    and "\<forall>x \<in> set flat. \<forall>y \<in> set flat.
           x \<noteq> y \<longrightarrow> diverge (tokenize (fst x)) (tokenize (fst y))"
    and "mset flat' = mset flat"
  shows "(\<forall>t. flattenToNestedObject flat' = Inr t \<longleftrightarrow> flattenToNestedObject flat = Inr t)
         \<and> (\<forall>k. flattenToNestedObject flat \<noteq> Inl (Unmodelled k))
         \<and> (\<forall>k. flattenToNestedObject flat' \<noteq> Inl (Unmodelled k))"
proof -
  have comm: "assignEntry x \<circ> assignEntry y = assignEntry y \<circ> assignEntry x"
    if "x \<in> set flat" "y \<in> set flat" for x y
  proof (cases "x = y")
    case True
    then show ?thesis by simp
  next
    case False
    with that assms(1,2) have
      "diverge (tokenize (fst y)) (tokenize (fst x))"
      "list_all plainSegment (tokenize (fst y))" "list_all plainSegment (tokenize (fst x))"
      by auto
    from assignEntry_commute [OF this] show ?thesis by (simp add: fun_eq_iff)
  qed
  from fold_multiset_equiv [of flat assignEntry flat', OF comm assms(3) [symmetric]]
  have "fold assignEntry flat (Some (Obj fmempty)) = fold assignEntry flat' (Some (Obj fmempty))"
    by simp
  then have same:
    "(case assignAll flat (Obj fmempty) of Inl e \<Rightarrow> None | Inr d \<Rightarrow> Some d) =
     (case assignAll flat' (Obj fmempty) of Inl e \<Rightarrow> None | Inr d \<Rightarrow> Some d)"
    by (simp only: assignAll_fold)
  have "flattenToNestedObject flat' = Inr t \<longleftrightarrow> flattenToNestedObject flat = Inr t" for t
    using same by (auto simp: flattenToNestedObject_def split: sum.splits)
  moreover have "flattenToNestedObject flat \<noteq> Inl (Unmodelled k)" for k
    using assignAll_modelled [OF assms(1), of "Obj fmempty" k]
    by (auto simp: flattenToNestedObject_def split: sum.splits)
  moreover have "set flat' = set flat" using assms(3) by (rule mset_eq_setD)
  then have "flattenToNestedObject flat' \<noteq> Inl (Unmodelled k)" for k
    using assignAll_modelled [of flat' "Obj fmempty" k] assms(1)
    by (auto simp: flattenToNestedObject_def split: sum.splits)
  ultimately show ?thesis by blast
qed

theorem decoding_order_independent_witness:
  "flattenToNestedObject
     [(''tags[1]'', Str ''b''), (''user.name'', Str ''Alice''), (''tags[0]'', Str ''a'')] =
     Inr (obj [(''user'', obj [(''name'', Prim (Str ''Alice''))]),
               (''tags'', arr [Prim (Str ''a''), Prim (Str ''b'')])])
   \<and> flattenToNestedObject
     [(''user.name'', Str ''Alice''), (''tags[0]'', Str ''a''), (''tags[1]'', Str ''b'')] =
     Inr (obj [(''user'', obj [(''name'', Prim (Str ''Alice''))]),
               (''tags'', arr [Prim (Str ''a''), Prim (Str ''b'')])])"
proof -
  let ?flat = "[(''user.name'', Str ''Alice''), (''tags[0]'', Str ''a''), (''tags[1]'', Str ''b'')]"
  let ?flat' = "[(''tags[1]'', Str ''b''), (''user.name'', Str ''Alice''), (''tags[0]'', Str ''a'')]"
  have toks: "tokenize ''user.name'' = [''user'', ''name'']"
    "tokenize ''tags[0]'' = [''tags'', ''0'']" "tokenize ''tags[1]'' = [''tags'', ''1'']"
    by (simp_all add: evalDefs)
  have plain: "plainSegment ''user''" "plainSegment ''name''" "plainSegment ''tags''"
    "plainSegment ''0''" "plainSegment ''1''"
    by (simp_all add: plainSegment_def evalDefs)
  have h1: "\<forall>entry \<in> set ?flat. list_all plainSegment (tokenize (fst entry))"
    by (simp add: toks plain)
  have h2: "\<forall>x \<in> set ?flat. \<forall>y \<in> set ?flat.
      x \<noteq> y \<longrightarrow> diverge (tokenize (fst x)) (tokenize (fst y))"
    by (simp add: toks)
  have h3: "mset ?flat' = mset ?flat" by simp
  have d: "flattenToNestedObject ?flat =
     Inr (obj [(''user'', obj [(''name'', Prim (Str ''Alice''))]),
               (''tags'', arr [Prim (Str ''a''), Prim (Str ''b'')])])"
    by (simp add: evalDefs)
  from decoding_order_independent [OF h1 h2 h3] d show ?thesis by blast
qed

section \<open>The sanitizer\<close>

text \<open>
  C7. If the target has no entry in \<^verbatim>\<open>RESTRICTED_DATA_FIELDS\<close>, or the vendor is neither
  \<^verbatim>\<open>"arktype"\<close> nor \<^verbatim>\<open>"valibot"\<close>, then \<^verbatim>\<open>sanitizeIssues\<close> returns the array it was
  given (the same address) and leaves the store as it was: nothing is copied, nothing is
  changed.
\<close>

theorem sanitize_identity:
  assumes "map_of RESTRICTED_DATA_FIELDS target = None
           \<or> (vendor \<noteq> ''arktype'' \<and> vendor \<noteq> ''valibot'')"
  shows "sanitizeIssues h issues vendor target = Inr (h, issues)"
  using assms by (auto simp: sanitizeIssues_def split: option.splits)

theorem sanitize_identity_witness:
  "sanitizeIssues
     [PlainObject ObjectPrototype [(''message'', Scalar (Str ''Invalid''))], ArrayObject [Ref 0]]
     1 ''arktype'' json
   = Inr ([PlainObject ObjectPrototype [(''message'', Scalar (Str ''Invalid''))],
           ArrayObject [Ref 0]], 1)
   \<and> sanitizeIssues
     [PlainObject ObjectPrototype [(''message'', Scalar (Str ''Invalid''))], ArrayObject [Ref 0]]
     1 ''other'' header
   = Inr ([PlainObject ObjectPrototype [(''message'', Scalar (Str ''Invalid''))],
           ArrayObject [Ref 0]], 1)"
proof -
  have a: "map_of RESTRICTED_DATA_FIELDS json = None
           \<or> (''arktype'' \<noteq> ''arktype'' \<and> ''arktype'' \<noteq> ''valibot'')"
    by (simp add: RESTRICTED_DATA_FIELDS_def)
  have b: "map_of RESTRICTED_DATA_FIELDS header = None
           \<or> (''other'' \<noteq> ''arktype'' \<and> ''other'' \<noteq> ''valibot'')"
    by simp
  show ?thesis
    using sanitize_identity [OF a] sanitize_identity [OF b] by simp
qed

lemma lookup_append_old: "lookup h a = Some c \<Longrightarrow> lookup (h @ ext) a = Some c"
  by (auto simp: lookup_def nth_append split: if_splits)

lemma lookup_lt: "lookup h a = Some c \<Longrightarrow> a < length h"
  by (auto simp: lookup_def split: if_splits)

lemma derived_append: "derived h x y \<Longrightarrow> derived (h @ ext) x y"
  unfolding derived_def by (blast intro: lookup_append_old)

text \<open>The callback for \<^verbatim>\<open>"arktype"\<close> never fails and only appends to the store.\<close>

lemma arktype_copy:
  assumes "lookup h a = Some (PlainObject p props)" "map_of props ''data'' = Some (Ref d)"
    "lookup h d = Some (PlainObject pd dprops)"
  shows "sanitizeArktypeIssue fs h (Ref a) =
         Inr (h @ [PlainObject ObjectPrototype (fold deleteProp fs dprops),
                   PlainObject p (assignProp ''data'' (Ref (length h)) props)],
              Ref (Suc (length h)))"
  using assms by (simp add: sanitizeArktypeIssue_def Let_def)

lemma arktype_same_or_copy:
  "sanitizeArktypeIssue fs h x = Inr (h, x)
   \<or> (\<exists>a p props d pd dprops. x = Ref a \<and> lookup h a = Some (PlainObject p props)
        \<and> map_of props ''data'' = Some (Ref d) \<and> lookup h d = Some (PlainObject pd dprops))"
  by (simp add: sanitizeArktypeIssue_def Let_def split: val.split option.split cell.split)

lemma arktype_issue:
  "\<exists>ext y. sanitizeArktypeIssue fs h x = Inr (h @ ext, y) \<and> (y = x \<or> derived (h @ ext) x y)"
proof -
  consider (same) "sanitizeArktypeIssue fs h x = Inr (h, x)"
    | (copy) a p props d pd dprops where "x = Ref a" "lookup h a = Some (PlainObject p props)"
        "map_of props ''data'' = Some (Ref d)" "lookup h d = Some (PlainObject pd dprops)"
    using arktype_same_or_copy [of fs h x] by blast
  then show ?thesis
  proof cases
    case same
    then show ?thesis by (intro exI [of _ "[]"] exI [of _ x]) simp
  next
    case copy
    let ?new = "[PlainObject ObjectPrototype (fold deleteProp fs dprops),
                 PlainObject p (assignProp ''data'' (Ref (length h)) props)]"
    have "derived (h @ ?new) (Ref a) (Ref (Suc (length h)))"
      unfolding derived_def
      using lookup_append_old [OF copy(2), of ?new] lookup_lt [OF copy(2)]
      by (auto simp: lookup_def nth_append)
    with arktype_copy [OF copy(2-4), of fs] copy(1) show ?thesis by blast
  qed
qed

lemma mapIssues_arktype:
  "\<exists>ext ys. mapIssues (sanitizeArktypeIssue fs) h xs = Inr (h @ ext, ys)
      \<and> length ys = length xs
      \<and> (\<forall>i < length xs. ys ! i = xs ! i \<or> derived (h @ ext) (xs ! i) (ys ! i))"
proof (induction xs arbitrary: h)
  case Nil
  show ?case by (intro exI [of _ "[]"]) simp
next
  case (Cons x xs)
  from arktype_issue [of fs h x] obtain e1 y where
    x: "sanitizeArktypeIssue fs h x = Inr (h @ e1, y)" "y = x \<or> derived (h @ e1) x y"
    by blast
  from Cons.IH [of "h @ e1"] obtain e2 ys where
    ih: "mapIssues (sanitizeArktypeIssue fs) (h @ e1) xs = Inr ((h @ e1) @ e2, ys)"
      "length ys = length xs"
      "\<forall>i < length xs. ys ! i = xs ! i \<or> derived ((h @ e1) @ e2) (xs ! i) (ys ! i)"
    by blast
  have "(y # ys) ! i = (x # xs) ! i \<or> derived (h @ e1 @ e2) ((x # xs) ! i) ((y # ys) ! i)"
    if "i < length (x # xs)" for i
  proof (cases i)
    case 0
    with x(2) derived_append [of "h @ e1" x y e2] show ?thesis by auto
  next
    case (Suc j)
    with that ih(3) show ?thesis by auto
  qed
  with x(1) ih(1,2) show ?case
    by (intro exI [of _ "e1 @ e2"] exI [of _ "y # ys"]) simp
qed

lemma mapIssues_arktype_copy:
  assumes "mapIssues (sanitizeArktypeIssue fs) h xs = Inr (h', ys)"
    and "i < length xs" and "xs ! i = Ref a"
    and "lookup h a = Some (PlainObject p props)" and "map_of props ''data'' = Some (Ref d)"
    and "lookup h d = Some (PlainObject pd dprops)"
  shows "\<exists>b c. ys ! i = Ref b \<and> length h \<le> b \<and> length h \<le> c
           \<and> lookup h' b = Some (PlainObject p (assignProp ''data'' (Ref c) props))
           \<and> lookup h' c = Some (PlainObject ObjectPrototype (fold deleteProp fs dprops))"
  using assms
proof (induction xs arbitrary: h h' ys i)
  case Nil
  then show ?case by simp
next
  case (Cons x xs)
  from arktype_issue [of fs h x] obtain e1 y where
    x: "sanitizeArktypeIssue fs h x = Inr (h @ e1, y)" by blast
  from mapIssues_arktype [of fs "h @ e1" xs] obtain e2 zs where
    rest: "mapIssues (sanitizeArktypeIssue fs) (h @ e1) xs = Inr ((h @ e1) @ e2, zs)" by blast
  from Cons.prems(1) x rest have h': "h' = (h @ e1) @ e2" and ys: "ys = y # zs" by auto
  show ?case
  proof (cases i)
    case 0
    with Cons.prems(3) have "x = Ref a" by simp
    with arktype_copy [OF Cons.prems(4-6), of fs] x have
      e1: "e1 = [PlainObject ObjectPrototype (fold deleteProp fs dprops),
                 PlainObject p (assignProp ''data'' (Ref (length h)) props)]"
      and y: "y = Ref (Suc (length h))"
      by auto
    show ?thesis
      using 0 ys y h' e1
      by (intro exI [of _ "Suc (length h)"] exI [of _ "length h"])
        (simp add: lookup_def nth_append)
  next
    case (Suc j)
    have "\<exists>b c. zs ! j = Ref b \<and> length (h @ e1) \<le> b \<and> length (h @ e1) \<le> c
           \<and> lookup h' b = Some (PlainObject p (assignProp ''data'' (Ref c) props))
           \<and> lookup h' c = Some (PlainObject ObjectPrototype (fold deleteProp fs dprops))"
      (is "\<exists>b c. ?P b c")
    proof (rule Cons.IH)
      show "mapIssues (sanitizeArktypeIssue fs) (h @ e1) xs = Inr (h', zs)"
        using rest h' by simp
      show "j < length xs" using Cons.prems(2) Suc by simp
      show "xs ! j = Ref a" using Cons.prems(3) Suc by simp
      show "lookup (h @ e1) a = Some (PlainObject p props)"
        using Cons.prems(4) by (rule lookup_append_old)
      show "map_of props ''data'' = Some (Ref d)" by fact
      show "lookup (h @ e1) d = Some (PlainObject pd dprops)"
        using Cons.prems(6) by (rule lookup_append_old)
    qed
    then obtain b c where "?P b c" by blast
    with Suc ys show ?thesis
      by (intro exI [of _ b] exI [of _ c]) simp
  qed
qed

text \<open>Deleting fields from the own properties.\<close>

lemma fold_deleteProp_filter:
  "fold deleteProp fs props = filter (\<lambda>p. fst p \<notin> set fs) props"
proof (induction fs arbitrary: props)
  case Nil
  show ?case by simp
next
  case (Cons f fs)
  have "filter (\<lambda>p. fst p \<notin> set fs) (deleteProp f props) =
        filter (\<lambda>p. fst p \<notin> set (f # fs)) props"
    by (auto simp: deleteProp_def intro: filter_cong)
  with Cons.IH [of "deleteProp f props"] show ?case by simp
qed

lemma fold_deleteProp_idem:
  "fold deleteProp fs (fold deleteProp fs props) = fold deleteProp fs props"
  by (simp add: fold_deleteProp_filter)

lemma map_of_filter_fst:
  "map_of (filter (\<lambda>p. P (fst p)) props) k = (if P k then map_of props k else None)"
  by (induction props) auto

lemma map_of_fold_deleteProp:
  "map_of (fold deleteProp fs props) k = (if k \<in> set fs then None else map_of props k)"
  using map_of_filter_fst [of "\<lambda>k. k \<notin> set fs" props k]
  by (simp add: fold_deleteProp_filter)

text \<open>Reductions of the store.\<close>

lemma reduced_refl: "reduced fs h h"
  by (simp add: reduced_def)

lemma reduced_length: "reduced fs h h' \<Longrightarrow> length h' = length h"
  by (simp add: reduced_def)

lemma reducedD:
  "reduced fs h h' \<Longrightarrow> a < length h \<Longrightarrow>
   h' ! a = h ! a
   \<or> (\<exists>p props. h ! a = PlainObject p props \<and> h' ! a = PlainObject p (fold deleteProp fs props))"
  unfolding reduced_def by blast

lemma reduced_trans:
  assumes "reduced fs h h1" and "reduced fs h1 h2"
  shows "reduced fs h h2"
  unfolding reduced_def
proof (intro conjI allI impI)
  show "length h2 = length h" using assms by (simp add: reduced_def)
next
  fix a assume a: "a < length h"
  with assms(1) have a1: "a < length h1" by (simp add: reduced_def)
  from assms(1) a consider "h1 ! a = h ! a"
    | p props where "h ! a = PlainObject p props" "h1 ! a = PlainObject p (fold deleteProp fs props)"
    unfolding reduced_def by blast
  then show "h2 ! a = h ! a
      \<or> (\<exists>p props. h ! a = PlainObject p props \<and> h2 ! a = PlainObject p (fold deleteProp fs props))"
  proof cases
    case 1
    with reducedD [OF assms(2) a1] show ?thesis by auto
  next
    case 2
    with reducedD [OF assms(2) a1] show ?thesis by (auto simp: fold_deleteProp_idem)
  qed
qed

lemma reduced_update:
  assumes "lookup h i = Some (PlainObject p props)"
  shows "reduced fs h (h[i := PlainObject p (fold deleteProp fs props)])"
  using assms by (auto simp: reduced_def lookup_def nth_list_update split: if_splits)

lemma reduced_lookup_array:
  assumes "reduced fs h h'"
  shows "lookup h' a = Some (ArrayObject xs) \<longleftrightarrow> lookup h a = Some (ArrayObject xs)"
proof (cases "a < length h")
  case True
  with reducedD [OF assms True] reduced_length [OF assms] show ?thesis
    by (auto simp: lookup_def)
next
  case False
  with reduced_length [OF assms] show ?thesis by (simp add: lookup_def)
qed

lemma reduced_lookup_plain:
  assumes "reduced fs h h'" and "lookup h a = Some (PlainObject p props)"
  shows "lookup h' a = Some (PlainObject p props)
         \<or> lookup h' a = Some (PlainObject p (fold deleteProp fs props))"
proof -
  from assms(2) have a: "a < length h" and ha: "h ! a = PlainObject p props"
    by (auto simp: lookup_def split: if_splits)
  with reducedD [OF assms(1) a] reduced_length [OF assms(1)] show ?thesis
    by (auto simp: lookup_def)
qed

lemma reduced_lookup_plain_back:
  assumes "reduced fs h h'" and "lookup h' a = Some (PlainObject p props')"
  shows "\<exists>props. lookup h a = Some (PlainObject p props)
           \<and> (props' = props \<or> props' = fold deleteProp fs props)"
proof -
  from assms(2) have "a < length h'" and ha': "h' ! a = PlainObject p props'"
    by (auto simp: lookup_def split: if_splits)
  with reduced_length [OF assms(1)] have a: "a < length h" by simp
  from reducedD [OF assms(1) a] consider "h' ! a = h ! a"
    | q props where "h ! a = PlainObject q props" "h' ! a = PlainObject q (fold deleteProp fs props)"
    by blast
  then show ?thesis
  proof cases
    case 1
    with ha' a show ?thesis by (intro exI [of _ props']) (simp add: lookup_def)
  next
    case 2
    with ha' a show ?thesis by (intro exI [of _ props]) (simp add: lookup_def)
  qed
qed

lemma reduced_keeps_deleted:
  assumes "reduced fs h h'" and "lookup h a = Some (PlainObject p (fold deleteProp fs props))"
  shows "lookup h' a = Some (PlainObject p (fold deleteProp fs props))"
  using reduced_lookup_plain [OF assms] by (auto simp: fold_deleteProp_idem)

text \<open>The loop over the entries of a path.\<close>

lemma sanitizePathEntry_cases:
  "sanitizePathEntry fs h x = Inr h
   \<or> x = Scalar Null \<and> sanitizePathEntry fs h x = Inl TypeError
   \<or> (\<exists>e pe eprops i pi iprops. x = Ref e \<and> lookup h e = Some (PlainObject pe eprops)
        \<and> map_of eprops ''input'' = Some (Ref i) \<and> lookup h i = Some (PlainObject pi iprops)
        \<and> sanitizePathEntry fs h x = Inr (h[i := PlainObject pi (fold deleteProp fs iprops)]))"
  by (simp add: sanitizePathEntry_def split: val.split option.split cell.split)

lemma sanitizePathEntry_reduced:
  "sanitizePathEntry fs h x = Inr h1 \<Longrightarrow> reduced fs h h1"
  using sanitizePathEntry_cases [of fs h x]
  by (auto simp: reduced_refl intro: reduced_update)

lemma sanitizePathEntry_total:
  "x \<noteq> Scalar Null \<Longrightarrow> \<exists>h1. sanitizePathEntry fs h x = Inr h1"
  using sanitizePathEntry_cases [of fs h x] by auto

lemma forEachPath_reduced:
  "forEachPath fs h paths = Inr h1 \<Longrightarrow> reduced fs h h1"
proof (induction paths arbitrary: h)
  case Nil
  then show ?case by (simp add: reduced_refl)
next
  case (Cons x paths)
  then obtain h' where "sanitizePathEntry fs h x = Inr h'" "forEachPath fs h' paths = Inr h1"
    by (auto split: sum.splits)
  with Cons.IH show ?case
    by (blast intro: reduced_trans sanitizePathEntry_reduced)
qed

lemma forEachPath_total:
  "Scalar Null \<notin> set paths \<Longrightarrow> \<exists>h1. forEachPath fs h paths = Inr h1"
proof (induction paths arbitrary: h)
  case Nil
  show ?case by simp
next
  case (Cons x paths)
  then obtain h' where "sanitizePathEntry fs h x = Inr h'"
    using sanitizePathEntry_total [of x fs h] by auto
  with Cons show ?case by auto
qed

lemma forEachPath_deletes:
  assumes "reduced fs h0 h" and "forEachPath fs h paths = Inr h1" and "''input'' \<notin> set fs"
    and "Ref e \<in> set paths" and "lookup h0 e = Some (PlainObject pe eprops)"
    and "map_of eprops ''input'' = Some (Ref i)" and "lookup h0 i = Some (PlainObject pi iprops)"
  shows "lookup h1 i = Some (PlainObject pi (fold deleteProp fs iprops))"
  using assms(1,2,4)
proof (induction paths arbitrary: h)
  case Nil
  then show ?case by simp
next
  case (Cons x paths)
  from Cons.prems(2) obtain h' where
    step: "sanitizePathEntry fs h x = Inr h'" and rest: "forEachPath fs h' paths = Inr h1"
    by (auto split: sum.splits)
  have red': "reduced fs h0 h'"
    using Cons.prems(1) sanitizePathEntry_reduced [OF step] by (rule reduced_trans)
  show ?case
  proof (cases "x = Ref e")
    case True
    from reduced_lookup_plain [OF Cons.prems(1) assms(5)] obtain eprops' where
      e: "lookup h e = Some (PlainObject pe eprops')" "map_of eprops' ''input'' = Some (Ref i)"
      using assms(3,6) by (auto simp: map_of_fold_deleteProp)
    from reduced_lookup_plain [OF Cons.prems(1) assms(7)] obtain iprops' where
      i: "lookup h i = Some (PlainObject pi iprops')"
        "fold deleteProp fs iprops' = fold deleteProp fs iprops"
      by (auto simp: fold_deleteProp_idem)
    from True e i step have "h' = h[i := PlainObject pi (fold deleteProp fs iprops)]"
      by (simp add: sanitizePathEntry_def)
    with lookup_lt [OF i(1)] have
      "lookup h' i = Some (PlainObject pi (fold deleteProp fs iprops))"
      by (simp add: lookup_def)
    with forEachPath_reduced [OF rest] show ?thesis
      by (rule reduced_keeps_deleted)
  next
    case False
    with Cons.prems(3) have "Ref e \<in> set paths" by simp
    with red' rest show ?thesis by (rule Cons.IH)
  qed
qed

text \<open>The callback for \<^verbatim>\<open>"valibot"\<close>.\<close>

lemma sanitizeValibotIssue_cases:
  "sanitizeValibotIssue fs h x = Inr (h, x)
   \<or> (\<exists>a p props pa paths. x = Ref a \<and> lookup h a = Some (PlainObject p props)
        \<and> map_of props ''path'' = Some (Ref pa) \<and> lookup h pa = Some (ArrayObject paths)
        \<and> sanitizeValibotIssue fs h x =
            (case forEachPath fs h paths of Inl e \<Rightarrow> Inl e | Inr h' \<Rightarrow> Inr (h', x)))"
  by (simp add: sanitizeValibotIssue_def split: val.split option.split cell.split)

lemma sanitizeValibotIssue_reduced:
  assumes "sanitizeValibotIssue fs h x = Inr (h1, y)"
  shows "y = x \<and> reduced fs h h1"
proof -
  consider "sanitizeValibotIssue fs h x = Inr (h, x)"
    | paths where "sanitizeValibotIssue fs h x =
            (case forEachPath fs h paths of Inl e \<Rightarrow> Inl e | Inr h' \<Rightarrow> Inr (h', x))"
    using sanitizeValibotIssue_cases [of fs h x] by blast
  then show ?thesis
  proof cases
    case 1
    with assms show ?thesis by (simp add: reduced_refl)
  next
    case 2
    with assms obtain h' where "forEachPath fs h paths = Inr h'" "h1 = h'" "y = x"
      by (auto split: sum.splits)
    with forEachPath_reduced [of fs h paths h'] show ?thesis by simp
  qed
qed

lemma sanitizeValibotIssue_total:
  assumes "noNullPath h x"
  shows "\<exists>h1. sanitizeValibotIssue fs h x = Inr (h1, x)"
proof -
  consider "sanitizeValibotIssue fs h x = Inr (h, x)"
    | a p props pa paths where "x = Ref a" "lookup h a = Some (PlainObject p props)"
        "map_of props ''path'' = Some (Ref pa)" "lookup h pa = Some (ArrayObject paths)"
        "sanitizeValibotIssue fs h x =
            (case forEachPath fs h paths of Inl e \<Rightarrow> Inl e | Inr h' \<Rightarrow> Inr (h', x))"
    using sanitizeValibotIssue_cases [of fs h x] by blast
  then show ?thesis
  proof cases
    case 1
    then show ?thesis by blast
  next
    case 2
    with assms have "Scalar Null \<notin> set paths" by (simp add: noNullPath_def)
    from forEachPath_total [OF this, of fs h] 2(5) show ?thesis by auto
  qed
qed

lemma noNullPath_reduced:
  assumes "reduced fs h h'" and "noNullPath h x"
  shows "noNullPath h' x"
proof -
  have "Scalar Null \<notin> set paths"
    if asm: "x = Ref a" "lookup h' a = Some (PlainObject p props')"
      "map_of props' ''path'' = Some (Ref pa)" "lookup h' pa = Some (ArrayObject paths)"
    for a p props' pa paths
  proof -
    from reduced_lookup_plain_back [OF assms(1) asm(2)] obtain props where
      props: "lookup h a = Some (PlainObject p props)"
        "props' = props \<or> props' = fold deleteProp fs props"
      by blast
    with asm(3) have "map_of props ''path'' = Some (Ref pa)"
      by (auto simp: map_of_fold_deleteProp split: if_splits)
    moreover from asm(4) have "lookup h pa = Some (ArrayObject paths)"
      using reduced_lookup_array [OF assms(1)] by simp
    ultimately show ?thesis using assms(2) asm(1) props(1) by (simp add: noNullPath_def)
  qed
  then show ?thesis
    by (auto simp: noNullPath_def split: val.split option.split cell.split)
qed

lemma mapIssues_valibot_reduced:
  "mapIssues (sanitizeValibotIssue fs) h xs = Inr (h1, ys) \<Longrightarrow> ys = xs \<and> reduced fs h h1"
proof (induction xs arbitrary: h ys)
  case Nil
  then show ?case by (simp add: reduced_refl)
next
  case (Cons x xs)
  then obtain h' y ys' where
    "sanitizeValibotIssue fs h x = Inr (h', y)" "mapIssues (sanitizeValibotIssue fs) h' xs = Inr (h1, ys')"
    "ys = y # ys'"
    by (auto split: sum.splits)
  with Cons.IH [of h' ys'] sanitizeValibotIssue_reduced [of fs h x h' y] show ?case
    by (auto intro: reduced_trans)
qed

lemma mapIssues_valibot_total:
  "list_all (noNullPath h) xs \<Longrightarrow> \<exists>h1. mapIssues (sanitizeValibotIssue fs) h xs = Inr (h1, xs)"
proof (induction xs arbitrary: h)
  case Nil
  show ?case by simp
next
  case (Cons x xs)
  then obtain h' where x: "sanitizeValibotIssue fs h x = Inr (h', x)"
    using sanitizeValibotIssue_total [of h x fs] by auto
  then have "reduced fs h h'" by (auto dest: sanitizeValibotIssue_reduced)
  with Cons.prems have "list_all (noNullPath h') xs"
    by (auto simp: list_all_iff intro: noNullPath_reduced)
  from Cons.IH [OF this] x show ?case by auto
qed

lemma sanitizeValibotIssue_deletes:
  assumes "reduced fs h0 h" and "sanitizeValibotIssue fs h (Ref a) = Inr (h1, y)"
    and "''path'' \<notin> set fs" and "''input'' \<notin> set fs"
    and "lookup h0 a = Some (PlainObject p props)" and "map_of props ''path'' = Some (Ref pa)"
    and "lookup h0 pa = Some (ArrayObject paths)"
    and "Ref e \<in> set paths" and "lookup h0 e = Some (PlainObject pe eprops)"
    and "map_of eprops ''input'' = Some (Ref i)" and "lookup h0 i = Some (PlainObject pi iprops)"
  shows "lookup h1 i = Some (PlainObject pi (fold deleteProp fs iprops))"
proof -
  from reduced_lookup_plain [OF assms(1,5)] obtain props' where
    a: "lookup h a = Some (PlainObject p props')" "map_of props' ''path'' = Some (Ref pa)"
    using assms(3,6) by (auto simp: map_of_fold_deleteProp)
  have pa: "lookup h pa = Some (ArrayObject paths)"
    using reduced_lookup_array [OF assms(1)] assms(7) by simp
  from a pa assms(2) have "forEachPath fs h paths = Inr h1"
    by (auto simp: sanitizeValibotIssue_def split: sum.splits)
  from forEachPath_deletes [OF assms(1) this assms(4,8,9,10,11)] show ?thesis .
qed

lemma mapIssues_valibot_deletes:
  assumes "reduced fs h0 h" and "mapIssues (sanitizeValibotIssue fs) h xs = Inr (h1, ys)"
    and "''path'' \<notin> set fs" and "''input'' \<notin> set fs"
    and "Ref a \<in> set xs"
    and "lookup h0 a = Some (PlainObject p props)" and "map_of props ''path'' = Some (Ref pa)"
    and "lookup h0 pa = Some (ArrayObject paths)"
    and "Ref e \<in> set paths" and "lookup h0 e = Some (PlainObject pe eprops)"
    and "map_of eprops ''input'' = Some (Ref i)" and "lookup h0 i = Some (PlainObject pi iprops)"
  shows "lookup h1 i = Some (PlainObject pi (fold deleteProp fs iprops))"
  using assms(1,2,5)
proof (induction xs arbitrary: h ys)
  case Nil
  then show ?case by simp
next
  case (Cons x xs)
  from Cons.prems(2) obtain h' y ys' where
    step: "sanitizeValibotIssue fs h x = Inr (h', y)"
    and rest: "mapIssues (sanitizeValibotIssue fs) h' xs = Inr (h1, ys')"
    by (auto split: sum.splits)
  have red': "reduced fs h0 h'"
    using Cons.prems(1) sanitizeValibotIssue_reduced [OF step] by (blast intro: reduced_trans)
  show ?case
  proof (cases "x = Ref a")
    case True
    with step have "sanitizeValibotIssue fs h (Ref a) = Inr (h', y)" by simp
    from sanitizeValibotIssue_deletes [OF Cons.prems(1) this assms(3,4,6-12)]
    have "lookup h' i = Some (PlainObject pi (fold deleteProp fs iprops))" .
    with mapIssues_valibot_reduced [OF rest] show ?thesis
      by (blast intro: reduced_keeps_deleted)
  next
    case False
    with Cons.prems(3) have "Ref a \<in> set xs" by simp
    with red' rest show ?thesis by (rule Cons.IH)
  qed
qed

lemma restricted_header [simp]: "map_of RESTRICTED_DATA_FIELDS header = Some [''cookie'']"
  by (simp add: RESTRICTED_DATA_FIELDS_def)

lemma lookup_snoc_new [simp]: "lookup (h @ [c]) (length h) = Some c"
  by (simp add: lookup_def)

text \<open>
  C6. Whenever the argument is typed as the source says (an array of issues, no
  \<^verbatim>\<open>null\<close> among the entries of a \<^verbatim>\<open>path\<close>), \<^verbatim>\<open>sanitizeIssues\<close> returns, for every
  vendor and every target. The array it returns is as long as the one it was given, and
  at each position it holds the issue that was there or an issue derived from it.
\<close>

theorem sanitize_total_same_length:
  assumes "wellTyped h issues"
  shows "\<exists>h' out xs ys. sanitizeIssues h issues vendor target = Inr (h', out)
           \<and> lookup h issues = Some (ArrayObject xs)
           \<and> lookup h' out = Some (ArrayObject ys)
           \<and> length ys = length xs
           \<and> (\<forall>i < length xs. ys ! i = xs ! i \<or> derived h' (xs ! i) (ys ! i))"
proof -
  from assms obtain xs where
    xs: "lookup h issues = Some (ArrayObject xs)" and typed: "list_all (noNullPath h) xs"
    by (auto simp: wellTyped_def split: option.splits cell.splits)
  have "sanitizeIssues h issues vendor target = Inr (h, issues)
      \<or> (\<exists>fs. sanitizeIssues h issues vendor target = sanitizeArktypeIssues h issues fs)
      \<or> (\<exists>fs. sanitizeIssues h issues vendor target = sanitizeValibotIssues h issues fs)"
    by (cases "map_of RESTRICTED_DATA_FIELDS target") (auto simp: sanitizeIssues_def)
  then consider (identity) "sanitizeIssues h issues vendor target = Inr (h, issues)"
    | (arktype) fs where "sanitizeIssues h issues vendor target = sanitizeArktypeIssues h issues fs"
    | (valibot) fs where "sanitizeIssues h issues vendor target = sanitizeValibotIssues h issues fs"
    by blast
  then show ?thesis
  proof cases
    case identity
    with xs show ?thesis by auto
  next
    case (arktype fs)
    from mapIssues_arktype [of fs h xs] obtain ext ys where
      m: "mapIssues (sanitizeArktypeIssue fs) h xs = Inr (h @ ext, ys)" "length ys = length xs"
        "\<forall>i < length xs. ys ! i = xs ! i \<or> derived (h @ ext) (xs ! i) (ys ! i)"
      by blast
    let ?h' = "(h @ ext) @ [ArrayObject ys]"
    have "sanitizeIssues h issues vendor target = Inr (?h', length (h @ ext))"
      using arktype xs m(1) by (simp add: sanitizeArktypeIssues_def arrayMap_def)
    moreover have "lookup ?h' (length (h @ ext)) = Some (ArrayObject ys)"
      by (rule lookup_snoc_new)
    moreover have "\<forall>i < length xs. ys ! i = xs ! i \<or> derived ?h' (xs ! i) (ys ! i)"
      using m(3) by (blast intro: derived_append)
    ultimately show ?thesis using xs m(2) by blast
  next
    case (valibot fs)
    from mapIssues_valibot_total [OF typed, of fs] obtain h1 where
      m: "mapIssues (sanitizeValibotIssue fs) h xs = Inr (h1, xs)"
      by blast
    have "sanitizeIssues h issues vendor target = Inr (h1 @ [ArrayObject xs], length h1)"
      using valibot xs m by (simp add: sanitizeValibotIssues_def arrayMap_def)
    moreover have "lookup (h1 @ [ArrayObject xs]) (length h1) = Some (ArrayObject xs)"
      by (rule lookup_snoc_new)
    ultimately show ?thesis using xs by blast
  qed
qed

text \<open>
  C8. For vendor \<^verbatim>\<open>"arktype"\<close> and target \<^verbatim>\<open>"header"\<close>: an issue whose \<^verbatim>\<open>data\<close> is a
  plain object is replaced, at its position of the returned array, by a new object \<open>b\<close>
  with the prototype and the properties of the issue, except that \<^verbatim>\<open>data\<close> is a new
  object \<open>c\<close> holding the payload's properties without \<^verbatim>\<open>cookie\<close>. Every object that
  was in the store before the call, the issue and its payload among them, is unchanged.
\<close>

theorem arktype_clones_payload:
  assumes "lookup h issues = Some (ArrayObject xs)"
    and "i < length xs" and "xs ! i = Ref a"
    and "lookup h a = Some (PlainObject p props)" and "map_of props ''data'' = Some (Ref d)"
    and "lookup h d = Some (PlainObject pd dprops)"
  shows "\<exists>h' out ys b c. sanitizeIssues h issues ''arktype'' header = Inr (h', out)
           \<and> take (length h) h' = h
           \<and> lookup h' out = Some (ArrayObject ys) \<and> length ys = length xs
           \<and> ys ! i = Ref b \<and> length h \<le> b \<and> length h \<le> c
           \<and> lookup h' b = Some (PlainObject p (assignProp ''data'' (Ref c) props))
           \<and> lookup h' c = Some (PlainObject ObjectPrototype (deleteProp ''cookie'' dprops))"
proof -
  from mapIssues_arktype [of "[''cookie'']" h xs] obtain ext ys where
    m: "mapIssues (sanitizeArktypeIssue [''cookie'']) h xs = Inr (h @ ext, ys)"
      "length ys = length xs"
    by blast
  from mapIssues_arktype_copy [OF m(1) assms(2-6)] obtain b c where
    bc: "ys ! i = Ref b" "length h \<le> b" "length h \<le> c"
      "lookup (h @ ext) b = Some (PlainObject p (assignProp ''data'' (Ref c) props))"
      "lookup (h @ ext) c = Some (PlainObject ObjectPrototype (fold deleteProp [''cookie''] dprops))"
    by blast
  let ?h' = "(h @ ext) @ [ArrayObject ys]"
  have "sanitizeIssues h issues ''arktype'' header = Inr (?h', length (h @ ext))"
    using assms(1) m(1)
    by (simp add: sanitizeIssues_def sanitizeArktypeIssues_def arrayMap_def)
  moreover have "take (length h) ?h' = h" by simp
  moreover have "lookup ?h' (length (h @ ext)) = Some (ArrayObject ys)"
    by (rule lookup_snoc_new)
  moreover have "lookup ?h' b = Some (PlainObject p (assignProp ''data'' (Ref c) props))"
    using bc(4) by (rule lookup_append_old)
  moreover have "lookup ?h' c = Some (PlainObject ObjectPrototype (deleteProp ''cookie'' dprops))"
    using lookup_append_old [OF bc(5)] by simp
  ultimately show ?thesis using m(2) bc(1-3) by blast
qed

theorem arktype_clones_payload_witness:
  "\<exists>h' out ys b c.
     sanitizeIssues
       [PlainObject ObjectPrototype
          [(''cookie'', Scalar (Str ''secret'')), (''authorization'', Scalar (Str ''token''))],
        PlainObject (ClassPrototype 0)
          [(''data'', Ref 0), (''message'', Scalar (Str ''Invalid header''))],
        ArrayObject [Ref 1]]
       2 ''arktype'' header = Inr (h', out)
     \<and> take 3 h' =
         [PlainObject ObjectPrototype
            [(''cookie'', Scalar (Str ''secret'')), (''authorization'', Scalar (Str ''token''))],
          PlainObject (ClassPrototype 0)
            [(''data'', Ref 0), (''message'', Scalar (Str ''Invalid header''))],
          ArrayObject [Ref 1]]
     \<and> lookup h' out = Some (ArrayObject ys) \<and> length ys = 1
     \<and> ys ! 0 = Ref b \<and> 3 \<le> b \<and> 3 \<le> c
     \<and> lookup h' b = Some (PlainObject (ClassPrototype 0)
                            [(''data'', Ref c), (''message'', Scalar (Str ''Invalid header''))])
     \<and> lookup h' c = Some (PlainObject ObjectPrototype
                            [(''authorization'', Scalar (Str ''token''))])"
proof -
  let ?h = "[PlainObject ObjectPrototype
          [(''cookie'', Scalar (Str ''secret'')), (''authorization'', Scalar (Str ''token''))],
        PlainObject (ClassPrototype 0)
          [(''data'', Ref 0), (''message'', Scalar (Str ''Invalid header''))],
        ArrayObject [Ref 1]]"
  have 1: "lookup ?h 2 = Some (ArrayObject [Ref 1])"
    and 2: "(0::nat) < length [Ref 1]" and 3: "[Ref 1] ! 0 = Ref 1"
    and 4: "lookup ?h 1 = Some (PlainObject (ClassPrototype 0)
          [(''data'', Ref 0), (''message'', Scalar (Str ''Invalid header''))])"
    and 5: "map_of [(''data'', Ref 0), (''message'', Scalar (Str ''Invalid header''))] ''data''
          = Some (Ref 0)"
    and 6: "lookup ?h 0 = Some (PlainObject ObjectPrototype
          [(''cookie'', Scalar (Str ''secret'')), (''authorization'', Scalar (Str ''token''))])"
    by (simp_all add: lookup_def)
  from arktype_clones_payload [OF 1 2 3 4 5 6] obtain h' out ys b c where
    "sanitizeIssues ?h 2 ''arktype'' header = Inr (h', out)" "take (length ?h) h' = ?h"
    "lookup h' out = Some (ArrayObject ys)" "length ys = length [Ref 1 :: val]"
    "ys ! 0 = Ref b" "length ?h \<le> b" "length ?h \<le> c"
    "lookup h' b = Some (PlainObject (ClassPrototype 0)
        (assignProp ''data'' (Ref c) [(''data'', Ref 0), (''message'', Scalar (Str ''Invalid header''))]))"
    "lookup h' c = Some (PlainObject ObjectPrototype
        (deleteProp ''cookie''
          [(''cookie'', Scalar (Str ''secret'')), (''authorization'', Scalar (Str ''token''))]))"
    by blast
  then show ?thesis
    by (intro exI [of _ h'] exI [of _ out] exI [of _ ys] exI [of _ b] exI [of _ c])
      (simp add: deleteProp_def eval_nat_numeral)
qed

text \<open>
  C9. For vendor \<^verbatim>\<open>"valibot"\<close> and target \<^verbatim>\<open>"header"\<close>: the returned array is a new array
  holding the very same issue objects; the objects that were in the store are still at
  their addresses, unchanged or without their \<^verbatim>\<open>cookie\<close> field; and the \<^verbatim>\<open>input\<close>
  object \<open>i\<close> of every entry \<open>e\<close> of the \<^verbatim>\<open>path\<close> of every issue \<open>a\<close> has lost that
  field, at its own address.
\<close>

theorem valibot_deletes_in_place:
  assumes "wellTyped h issues" and "lookup h issues = Some (ArrayObject xs)"
    and "Ref a \<in> set xs"
    and "lookup h a = Some (PlainObject p props)" and "map_of props ''path'' = Some (Ref pa)"
    and "lookup h pa = Some (ArrayObject paths)"
    and "Ref e \<in> set paths" and "lookup h e = Some (PlainObject pe eprops)"
    and "map_of eprops ''input'' = Some (Ref i)" and "lookup h i = Some (PlainObject pi iprops)"
  shows "\<exists>h' out. sanitizeIssues h issues ''valibot'' header = Inr (h', out)
           \<and> out = length h
           \<and> lookup h' out = Some (ArrayObject xs)
           \<and> reduced [''cookie''] h (take (length h) h')
           \<and> lookup h' i = Some (PlainObject pi (deleteProp ''cookie'' iprops))"
proof -
  from assms(1,2) have typed: "list_all (noNullPath h) xs"
    by (simp add: wellTyped_def)
  from mapIssues_valibot_total [OF typed, of "[''cookie'']"] obtain h1 where
    m: "mapIssues (sanitizeValibotIssue [''cookie'']) h xs = Inr (h1, xs)"
    by blast
  from mapIssues_valibot_reduced [OF m] have red: "reduced [''cookie''] h h1" by simp
  then have len: "length h1 = length h" by (rule reduced_length)
  have "lookup h1 i = Some (PlainObject pi (fold deleteProp [''cookie''] iprops))"
    by (rule mapIssues_valibot_deletes [OF reduced_refl m _ _ assms(3-10)]) simp_all
  then have del: "lookup (h1 @ [ArrayObject xs]) i = Some (PlainObject pi (deleteProp ''cookie'' iprops))"
    using lookup_append_old by fastforce
  have "sanitizeIssues h issues ''valibot'' header = Inr (h1 @ [ArrayObject xs], length h1)"
    using assms(2) m
    by (simp add: sanitizeIssues_def sanitizeValibotIssues_def arrayMap_def)
  moreover have "lookup (h1 @ [ArrayObject xs]) (length h1) = Some (ArrayObject xs)"
    by (rule lookup_snoc_new)
  moreover have "reduced [''cookie''] h (take (length h) (h1 @ [ArrayObject xs]))"
    using red len by simp
  ultimately show ?thesis using del len by auto
qed

theorem sanitize_total_same_length_witness:
  "wellTyped
     [PlainObject ObjectPrototype
        [(''cookie'', Scalar (Str ''secret'')), (''authorization'', Scalar (Str ''token''))],
      PlainObject ObjectPrototype [(''input'', Ref 0)],
      ArrayObject [Ref 1],
      PlainObject ObjectPrototype [(''message'', Scalar (Str ''Invalid header'')), (''path'', Ref 2)],
      ArrayObject [Ref 3]] 4
   \<and> (\<exists>h' out ys.
        sanitizeIssues
          [PlainObject ObjectPrototype
             [(''cookie'', Scalar (Str ''secret'')), (''authorization'', Scalar (Str ''token''))],
           PlainObject ObjectPrototype [(''input'', Ref 0)],
           ArrayObject [Ref 1],
           PlainObject ObjectPrototype
             [(''message'', Scalar (Str ''Invalid header'')), (''path'', Ref 2)],
           ArrayObject [Ref 3]] 4 ''valibot'' header = Inr (h', out)
        \<and> lookup h' out = Some (ArrayObject ys) \<and> length ys = 1)"
proof -
  let ?h = "[PlainObject ObjectPrototype
        [(''cookie'', Scalar (Str ''secret'')), (''authorization'', Scalar (Str ''token''))],
      PlainObject ObjectPrototype [(''input'', Ref 0)],
      ArrayObject [Ref 1],
      PlainObject ObjectPrototype [(''message'', Scalar (Str ''Invalid header'')), (''path'', Ref 2)],
      ArrayObject [Ref 3]]"
  have w: "wellTyped ?h 4"
    by (simp add: wellTyped_def noNullPath_def lookup_def)
  from sanitize_total_same_length [OF w, of "''valibot''" header] obtain h' out xs ys where
    "sanitizeIssues ?h 4 ''valibot'' header = Inr (h', out)"
    "lookup ?h 4 = Some (ArrayObject xs)" "lookup h' out = Some (ArrayObject ys)"
    "length ys = length xs"
    by blast
  then show ?thesis using w
    by (intro conjI exI [of _ h'] exI [of _ out] exI [of _ ys]) (auto simp: lookup_def)
qed

theorem valibot_deletes_in_place_witness:
  "\<exists>h' out.
     sanitizeIssues
       [PlainObject ObjectPrototype
          [(''cookie'', Scalar (Str ''secret'')), (''authorization'', Scalar (Str ''token''))],
        PlainObject ObjectPrototype [(''input'', Ref 0)],
        ArrayObject [Ref 1],
        PlainObject ObjectPrototype
          [(''message'', Scalar (Str ''Invalid header'')), (''path'', Ref 2)],
        ArrayObject [Ref 3]] 4 ''valibot'' header = Inr (h', out)
     \<and> out = 5
     \<and> lookup h' out = Some (ArrayObject [Ref 3])
     \<and> lookup h' 0 = Some (PlainObject ObjectPrototype
                            [(''authorization'', Scalar (Str ''token''))])"
proof -
  let ?h = "[PlainObject ObjectPrototype
        [(''cookie'', Scalar (Str ''secret'')), (''authorization'', Scalar (Str ''token''))],
      PlainObject ObjectPrototype [(''input'', Ref 0)],
      ArrayObject [Ref 1],
      PlainObject ObjectPrototype [(''message'', Scalar (Str ''Invalid header'')), (''path'', Ref 2)],
      ArrayObject [Ref 3]]"
  have w: "wellTyped ?h 4"
    by (simp add: wellTyped_def noNullPath_def lookup_def)
  have 1: "lookup ?h 4 = Some (ArrayObject [Ref 3])"
    and 2: "Ref 3 \<in> set [Ref 3 :: val]"
    and 3: "lookup ?h 3 = Some (PlainObject ObjectPrototype
              [(''message'', Scalar (Str ''Invalid header'')), (''path'', Ref 2)])"
    and 4: "map_of [(''message'', Scalar (Str ''Invalid header'')), (''path'', Ref 2)] ''path''
              = Some (Ref 2)"
    and 5: "lookup ?h 2 = Some (ArrayObject [Ref 1])"
    and 6: "Ref 1 \<in> set [Ref 1 :: val]"
    and 7: "lookup ?h 1 = Some (PlainObject ObjectPrototype [(''input'', Ref 0)])"
    and 8: "map_of [(''input'', Ref 0)] ''input'' = Some (Ref 0)"
    and 9: "lookup ?h 0 = Some (PlainObject ObjectPrototype
              [(''cookie'', Scalar (Str ''secret'')), (''authorization'', Scalar (Str ''token''))])"
    by (simp_all add: lookup_def)
  from valibot_deletes_in_place [OF w 1 2 3 4 5 6 7 8 9] obtain h' out where
    "sanitizeIssues ?h 4 ''valibot'' header = Inr (h', out)" "out = length ?h"
    "lookup h' out = Some (ArrayObject [Ref 3])"
    "lookup h' 0 = Some (PlainObject ObjectPrototype
        (deleteProp ''cookie''
          [(''cookie'', Scalar (Str ''secret'')), (''authorization'', Scalar (Str ''token''))]))"
    by blast
  then show ?thesis
    by (intro exI [of _ h'] exI [of _ out]) (simp add: deleteProp_def)
qed

section \<open>The strict index check\<close>

lemma isDigit_digitOf:
  assumes "isDigit c"
  shows "digitOf c = Some (of_char c - 48)" and "of_char c - 48 < (10::nat)"
  using assms by (auto simp: isDigit_def digitOf_def)

lemma parseRadix_digits:
  assumes "s \<noteq> []" and "list_all isDigit s"
  shows "parseRadix 10 s = Some (decimalValue s)"
proof -
  have "case digitOf c of Some d \<Rightarrow> d < 10 | None \<Rightarrow> False" if "c \<in> set s" for c
  proof -
    from that assms(2) have "isDigit c" by (simp add: list_all_iff)
    from isDigit_digitOf [OF this] show ?thesis by simp
  qed
  then have ok: "list_all (\<lambda>c. case digitOf c of Some d \<Rightarrow> d < 10 | None \<Rightarrow> False) s"
    by (simp add: list_all_iff)
  have "foldl (\<lambda>acc c. acc * 10 + the (digitOf c)) a s =
        foldl (\<lambda>acc c. acc * 10 + (of_char c - 48)) a s" for a
    using assms(2) by (induction s arbitrary: a) (simp_all add: isDigit_digitOf(1))
  with assms(1) ok show ?thesis
    by (simp add: parseRadix_def decimalValue_def)
qed

lemma stripLeading_no_match:
  assumes "\<And>w. w \<in> set ws \<Longrightarrow> w \<noteq> [] \<Longrightarrow> take (length w) s \<noteq> w"
  shows "stripLeading ws s = s"
proof -
  have "find (\<lambda>w. w \<noteq> [] \<and> take (length w) s = w) ws = None"
    using assms by (auto simp: find_None_iff)
  then show ?thesis by (subst stripLeading.simps) simp
qed

lemma hd_take_eq: "take (length w) s = w \<Longrightarrow> w \<noteq> [] \<Longrightarrow> hd w = hd s"
  by (cases s; cases w) auto

lemma space_not_digit:
  "w \<in> set spaceSeqs \<Longrightarrow> \<not> isDigit (hd w)" "w \<in> set (map rev spaceSeqs) \<Longrightarrow> \<not> isDigit (hd w)"
  by (auto simp: spaceSeqs_def isDigit_def)

lemma trim_digits:
  assumes "s \<noteq> []" and "list_all isDigit s"
  shows "trim s = s"
proof -
  from assms have h: "isDigit (hd s)" and l: "isDigit (hd (rev s))"
    by (auto simp: list_all_iff hd_rev)
  have 1: "stripLeading spaceSeqs s = s"
  proof (rule stripLeading_no_match)
    fix w assume w: "w \<in> set spaceSeqs" "w \<noteq> []"
    show "take (length w) s \<noteq> w"
    proof
      assume "take (length w) s = w"
      from hd_take_eq [OF this w(2)] h space_not_digit(1) [OF w(1)] show False by simp
    qed
  qed
  have 2: "stripLeading (map rev spaceSeqs) (rev s) = rev s"
  proof (rule stripLeading_no_match)
    fix w assume w: "w \<in> set (map rev spaceSeqs)" "w \<noteq> []"
    show "take (length w) (rev s) \<noteq> w"
    proof
      assume "take (length w) (rev s) = w"
      from hd_take_eq [OF this w(2)] l space_not_digit(2) [OF w(1)] show False by simp
    qed
  qed
  show ?thesis by (simp add: trim_def 1 2)
qed

lemma Number_digits:
  assumes "s \<noteq> []" and "list_all isDigit s"
  shows "Number s = Decimal False (decimalValue s) 0"
proof -
  from assms(1) obtain c t where s: "s = c # t" by (cases s) auto
  with assms(2) have c: "isDigit c" and t: "list_all isDigit t" by simp_all
  from c have sign: "c \<noteq> CHR ''-''" "c \<noteq> CHR ''+''" by (auto simp: isDigit_def)
  have radix: "\<not> (t \<noteq> [] \<and> hd t \<in> set ''xXoObB'')"
  proof
    assume "t \<noteq> [] \<and> hd t \<in> set ''xXoObB''"
    with t have "isDigit (hd t)" "hd t \<in> set ''xXoObB''" by (auto simp: list_all_iff)
    then show False by (auto simp: isDigit_def)
  qed
  from c s have inf: "s \<noteq> ''Infinity''" by (auto simp: isDigit_def)
  from assms(2) have tw: "takeWhile isDigit s = s" "dropWhile isDigit s = []"
    by (auto simp: list_all_iff)
  have "parseUnsignedDecimal False s = Decimal False (decimalValue s) 0"
    unfolding parseUnsignedDecimal_def Let_def tw
    using inf assms(1) parseRadix_digits [OF assms]
    by (simp add: parseExponent_def)
  with s sign radix trim_digits [OF assms] show ?thesis
    by (auto simp: Number_def)
qed

lemma splitOn_nonempty: "splitOn sep s \<noteq> []"
  by (induction s) (auto split: list.splits)

lemma splitOn_no_sep: "t \<in> set (splitOn sep s) \<Longrightarrow> sep \<notin> set t"
proof (induction s arbitrary: t)
  case Nil
  then show ?case by simp
next
  case (Cons c s)
  show ?case
  proof (cases "c = sep")
    case True
    with Cons show ?thesis by auto
  next
    case False
    obtain u us where us: "splitOn sep s = u # us"
      using splitOn_nonempty [of sep s] by (cases "splitOn sep s") auto
    with False Cons.prems have "t = c # u \<or> t \<in> set us" by simp
    with Cons.IH [of u] Cons.IH [of t] us False show ?thesis by auto
  qed
qed

lemma decimalValue_zeros:
  "decimalValue (s @ replicate j (CHR ''0'')) = decimalValue s * 10 ^ j"
proof (induction j)
  case 0
  then show ?case by simp
next
  case (Suc j)
  have "replicate (Suc j) (CHR ''0'') = replicate j (CHR ''0'') @ [CHR ''0'']"
    by (simp add: replicate_append_same)
  then have "decimalValue (s @ replicate (Suc j) (CHR ''0'')) =
      decimalValue (s @ replicate j (CHR ''0'')) * 10"
    by (simp add: decimalValue_def)
  with Suc show ?case by simp
qed

lemma isStrictIndex_digits:
  assumes "k \<noteq> []" and "list_all isDigit k"
  shows "isStrictIndex k \<longleftrightarrow> decimalValue k < 2 ^ 1024 - 2 ^ 970"
  unfolding isStrictIndex_def strictIndex_def Number_digits [OF assms]
  by (rule toIndex_digits)

text \<open>
  C5 (amended). A segment made of decimal digits only is a strict index exactly when its
  value is below \<open>2\<^sup>1\<^sup>0\<^sup>2\<^sup>4 - 2\<^sup>9\<^sup>7\<^sup>0\<close> (from there on \<^verbatim>\<open>Number\<close> gives \<^verbatim>\<open>Infinity\<close>), and up to
  \<open>2\<^sup>5\<^sup>3\<close> it addresses the index of its value; \<^verbatim>\<open>"-1"\<close> is a name. But digits are not the
  only strict indices: \<^verbatim>\<open>"1e2"\<close> is the strict index 100 and \<^verbatim>\<open>"0x10"\<close> the strict index
  16. A segment is never empty and never contains a dot, so \<^verbatim>\<open>"1.5"\<close> is never a segment
  (a key \<^verbatim>\<open>a[1.5]\<close> has the segments \<^verbatim>\<open>a\<close>, \<^verbatim>\<open>1\<close> and \<^verbatim>\<open>5\<close>).
\<close>

theorem strict_index_is_numeric:
  "(\<forall>k. k \<noteq> [] \<and> list_all isDigit k \<longrightarrow>
        (isStrictIndex k \<longleftrightarrow> decimalValue k < 2 ^ 1024 - 2 ^ 970))
   \<and> (\<forall>k. k \<noteq> [] \<and> list_all isDigit k \<and> decimalValue k \<le> 2 ^ 53 \<longrightarrow>
        strictIndex k = Some (decimalValue k))
   \<and> \<not> isStrictIndex ''-1''
   \<and> strictIndex ''1e2'' = Some 100
   \<and> strictIndex ''0x10'' = Some 16
   \<and> (\<forall>key k. k \<in> set (tokenize key) \<longrightarrow> k \<noteq> [] \<and> CHR ''.'' \<notin> set k)
   \<and> tokenize ''a[1.5]'' = [''a'', ''1'', ''5'']"
proof (intro conjI allI impI)
  fix k assume "k \<noteq> [] \<and> list_all isDigit k"
  then show "isStrictIndex k \<longleftrightarrow> decimalValue k < 2 ^ 1024 - 2 ^ 970"
    by (simp add: isStrictIndex_digits)
next
  fix k assume "k \<noteq> [] \<and> list_all isDigit k \<and> decimalValue k \<le> 2 ^ 53"
  then show "strictIndex k = Some (decimalValue k)"
    by (simp add: strictIndex_def Number_digits toIndex_small)
next
  show "\<not> isStrictIndex ''-1''" by (simp add: evalDefs)
  show "strictIndex ''1e2'' = Some 100" by (simp add: evalDefs)
  show "strictIndex ''0x10'' = Some 16" by (simp add: evalDefs)
  show "tokenize ''a[1.5]'' = [''a'', ''1'', ''5'']" by (simp add: evalDefs)
next
  fix key k assume "k \<in> set (tokenize key)"
  then show "k \<noteq> []" by (simp add: tokenize_def)
next
  fix key k assume "k \<in> set (tokenize key)"
  then show "CHR ''.'' \<notin> set k" by (auto simp: tokenize_def dest: splitOn_no_sep)
qed

theorem strict_index_is_numeric_witness:
  "isStrictIndex ''007'' \<and> strictIndex ''007'' = Some 7
   \<and> tokenize ''a[1.5]'' = [''a'', ''1'', ''5'']
   \<and> CHR ''.'' \<notin> set ''5''"
proof -
  have d: "''007'' \<noteq> [] \<and> list_all isDigit ''007''" "decimalValue ''007'' \<le> 2 ^ 53"
    and v: "decimalValue ''007'' = 7"
    by (simp_all add: isDigit_def decimalValue_def)
  have t: "tokenize ''a[1.5]'' = [''a'', ''1'', ''5'']"
    by (simp add: evalDefs)
  then have m: "''5'' \<in> set (tokenize ''a[1.5]'')" by simp
  from strict_index_is_numeric have
    "isStrictIndex ''007'' \<longleftrightarrow> decimalValue ''007'' < 2 ^ 1024 - 2 ^ 970"
    and "strictIndex ''007'' = Some (decimalValue ''007'')"
    and "CHR ''.'' \<notin> set ''5''"
    using d m by blast+
  with v t show ?thesis by simp
qed

text \<open>
  The claim as stated fails in both directions: \<^verbatim>\<open>"1e2"\<close> and \<^verbatim>\<open>"0x10"\<close> are strict
  indices that are not made of digits only, and the digits of \<open>10\<^sup>3\<^sup>0\<^sup>9\<close> (a one and 309
  zeros) are not a strict index.
\<close>

theorem exponent_token_is_strict_index:
  "isStrictIndex ''1e2'' \<and> \<not> list_all isDigit ''1e2''
   \<and> isStrictIndex ''0x10'' \<and> \<not> list_all isDigit ''0x10''
   \<and> list_all isDigit (''1'' @ replicate 309 (CHR ''0''))
   \<and> \<not> isStrictIndex (''1'' @ replicate 309 (CHR ''0''))"
proof -
  have d: "list_all isDigit (''1'' @ replicate 309 (CHR ''0''))"
    by (simp add: isDigit_def list_all_iff)
  have "decimalValue (''1'' @ replicate 309 (CHR ''0'')) = 10 ^ 309"
    by (simp only: decimalValue_zeros) (simp add: decimalValue_def)
  then have "\<not> decimalValue (''1'' @ replicate 309 (CHR ''0'')) < 2 ^ 1024 - 2 ^ 970"
    by simp
  with d have "\<not> isStrictIndex (''1'' @ replicate 309 (CHR ''0''))"
    by (subst isStrictIndex_digits) simp_all
  with d show ?thesis by (simp add: evalDefs)
qed

lemma decode_index_with_fraction:
  "flattenToNestedObject [(''a[1.5]'', Str ''v'')] = Inr (obj [(''a'', arr [arr [Prim (Str ''v'')]])])"
  by (simp add: evalDefs)

end
